theory Spec2Isabelle
  imports Main "HOL-Library.Sublist"
begin

section \<open>The app-server client of internal/codex\<close>

text \<open>
  The client launches \<^verbatim>\<open>codex app-server\<close>, writes one JSON object per line to the
  child's standard input and reads one JSON object per line from its standard output.
  This theory embeds the functions of the client: \<^verbatim>\<open>bytesTrimSpace\<close>, \<^verbatim>\<open>readLoop\<close>,
  \<^verbatim>\<open>idMatches\<close>, \<^verbatim>\<open>sendNotification\<close>, \<^verbatim>\<open>sendRequest\<close>, \<^verbatim>\<open>initialize\<close>,
  \<^verbatim>\<open>newAppServerClient\<close> and \<^verbatim>\<open>Close\<close>.
\<close>

subsection \<open>Bytes and wire messages\<close>

text \<open>A Go \<^verbatim>\<open>[]byte\<close>, \<^verbatim>\<open>json.RawMessage\<close> or \<^verbatim>\<open>string\<close>: a list of 8-bit characters.
  A nil slice and an empty slice are both \<open>[]\<close> (the code only asks for \<^verbatim>\<open>len\<close>).\<close>

type_synonym bytes = string

record rpcError =
  Code :: int
  Message :: string

record rpcMessage =
  ID :: bytes
  Method :: string
  Params :: bytes
  Result :: bytes
  Error :: "rpcError option"

subsection \<open>bytesTrimSpace\<close>

text \<open>The condition both loops of \<^verbatim>\<open>bytesTrimSpace\<close> test on a byte:
  space, line feed, carriage return or tab.\<close>

definition trimmed_byte :: "char \<Rightarrow> bool" where
  "trimmed_byte c \<longleftrightarrow> c = CHR '' '' \<or> c = CHR 0x0A \<or> c = CHR 0x0D \<or> c = CHR 0x09"

text \<open>\<^verbatim>\<open>for start < end && (b[start] == ' ' || ...) { start++ }\<close>\<close>

function trimStart :: "bytes \<Rightarrow> nat \<Rightarrow> nat \<Rightarrow> nat" where
  "trimStart b start end' =
     (if start < end' \<and> trimmed_byte (b ! start) then trimStart b (start + 1) end' else start)"
  by pat_completeness auto
termination
  by (relation "measure (\<lambda>(b, start, end'). end' - start)") auto

text \<open>\<^verbatim>\<open>for end > start && (b[end-1] == ' ' || ...) { end-- }\<close>\<close>

function trimEnd :: "bytes \<Rightarrow> nat \<Rightarrow> nat \<Rightarrow> nat" where
  "trimEnd b start end' =
     (if end' > start \<and> trimmed_byte (b ! (end' - 1)) then trimEnd b start (end' - 1) else end')"
  by pat_completeness auto
termination
  by (relation "measure (\<lambda>(b, start, end'). end' - start)") auto

declare trimStart.simps [simp del] trimEnd.simps [simp del]

text \<open>\<^verbatim>\<open>b[start:end]\<close> for \<open>start \<le> end \<le> len(b)\<close>, the only way the function slices.\<close>

definition slice :: "bytes \<Rightarrow> nat \<Rightarrow> nat \<Rightarrow> bytes" where
  "slice b start end' = take (end' - start) (drop start b)"

definition bytesTrimSpace :: "bytes \<Rightarrow> bytes" where
  "bytesTrimSpace b =
     (let start = trimStart b 0 (length b);
          end' = trimEnd b start (length b)
      in slice b start end')"

text \<open>The spec's words: a line trimmed of surrounding whitespace. Whitespace is read as
  the whitespace of JSON (RFC 8259): space, horizontal tab, line feed, carriage return.\<close>

definition json_whitespace :: "char \<Rightarrow> bool" where
  "json_whitespace c \<longleftrightarrow> c \<in> set [CHR 0x20, CHR 0x09, CHR 0x0A, CHR 0x0D]"

definition trim_spec :: "bytes \<Rightarrow> bytes" where
  "trim_spec b = rev (dropWhile json_whitespace (rev (dropWhile json_whitespace b)))"

subsection \<open>json.Unmarshal\<close>

text \<open>
  \<^verbatim>\<open>encoding/json\<close> is not part of the repository. \<^verbatim>\<open>json.Unmarshal(data, v)\<close> is
  modelled by its documented behaviour: empty input is rejected (\<^verbatim>\<open>unexpected end of JSON
  input\<close>) whatever the target is; otherwise the outcome is that of a decoder for the
  target's type, \<open>None\<close> for a non-nil error and \<open>Some x\<close> for the value the target holds
  after a nil error. The decoder is a parameter wherever the source decodes.
\<close>

definition Unmarshal :: "(bytes \<Rightarrow> 'a option) \<Rightarrow> bytes \<Rightarrow> 'a option" where
  "Unmarshal target data = (if data = [] then None else target data)"

subsection \<open>readLoop\<close>

text \<open>One call of \<^verbatim>\<open>c.reader.ReadBytes('\n')\<close>: the bytes up to and including the
  delimiter with a nil error, or an error (end of stream included) with whatever bytes
  came before it.\<close>

datatype read_result = ReadOk bytes | ReadErr bytes

text \<open>
  The queue \<^verbatim>\<open>c.ch\<close> is \<^verbatim>\<open>make(chan rpcMessage, 16)\<close>: it holds at most 16 messages that
  were sent and not yet received, and \<^verbatim>\<open>c.ch <- msg\<close> blocks while it is full. Its state is
  the messages the receivers have taken so far and the messages still buffered, both
  oldest first.
\<close>

definition chan_capacity :: nat where
  "chan_capacity = 16"

record chan =
  received :: "rpcMessage list"
  buffered :: "rpcMessage list"

definition empty_chan :: chan where
  "empty_chan = \<lparr>received = [], buffered = []\<rparr>"

text \<open>Receivers take the \<open>n\<close> oldest buffered messages (all of them if there are fewer).\<close>

definition chan_recv :: "nat \<Rightarrow> chan \<Rightarrow> chan" where
  "chan_recv n q = q\<lparr>received := received q @ take n (buffered q), buffered := drop n (buffered q)\<rparr>"

text \<open>
  \<^verbatim>\<open>c.ch <- msg\<close>. What the receivers do is not decided by the loop: \<open>takes\<close> gives, for each
  send in order, how many buffered messages are received before that send completes, and
  nothing more is received once the list is used up. The send completes when the buffer
  then has room (\<open>Inr\<close>, with the rest of \<open>takes\<close>); otherwise it blocks forever (\<open>Inl\<close>).
\<close>

definition chan_send :: "nat list \<Rightarrow> chan \<Rightarrow> rpcMessage \<Rightarrow> chan + nat list \<times> chan" where
  "chan_send takes q msg =
     (let q1 = chan_recv (case takes of [] \<Rightarrow> 0 | n # _ \<Rightarrow> n) q
      in if length (buffered q1) < chan_capacity
         then Inr (tl takes, q1\<lparr>buffered := buffered q1 @ [msg]\<rparr>)
         else Inl q1)"

text \<open>How the loop ends: it returns on a read error, or it stays in a read that never
  completes, or it stays in the send of a message to the full queue.\<close>

datatype reader_end = Returned | BlockedReading | BlockedSending rpcMessage

text \<open>
  The loop of \<^verbatim>\<open>readLoop\<close> over the results of the successive reads, threading the
  queue. The decoder of \<^verbatim>\<open>rpcMessage\<close> is the parameter \<open>decode\<close>. At the end of the
  list no further read completes.
\<close>

fun readLoop :: "(bytes \<Rightarrow> rpcMessage option) \<Rightarrow> read_result list \<Rightarrow> nat list \<Rightarrow> chan \<Rightarrow>
    reader_end \<times> chan" where
  "readLoop decode [] takes ch = (BlockedReading, ch)"
| "readLoop decode (ReadErr partial # reads) takes ch = (Returned, ch)"
| "readLoop decode (ReadOk line # reads) takes ch =
     (let line = bytesTrimSpace line in
      if length line = 0 then readLoop decode reads takes ch
      else (case Unmarshal decode line of
              None \<Rightarrow> readLoop decode reads takes ch
            | Some msg \<Rightarrow>
                (case chan_send takes ch msg of
                   Inl ch' \<Rightarrow> (BlockedSending msg, ch')
                 | Inr (takes', ch') \<Rightarrow> readLoop decode reads takes' ch')))"

text \<open>The messages sent on the queue so far, in the order they were sent.\<close>

definition sent :: "chan \<Rightarrow> rpcMessage list" where
  "sent q = received q @ buffered q"

text \<open>The spec's words: trim each line, skip the lines that are empty after trimming,
  discard the lines that do not decode, keep the order.\<close>

definition delivered_spec :: "(bytes \<Rightarrow> rpcMessage option) \<Rightarrow> bytes list \<Rightarrow> rpcMessage list" where
  "delivered_spec decode lines =
     List.map_filter decode (filter (\<lambda>l. l \<noteq> []) (map trim_spec lines))"

text \<open>The lines read before the first read error.\<close>

fun lines_read :: "read_result list \<Rightarrow> bytes list" where
  "lines_read [] = []"
| "lines_read (ReadErr partial # reads) = []"
| "lines_read (ReadOk line # reads) = line # lines_read reads"

subsection \<open>Decoding identifiers\<close>

text \<open>
  What a JSON text denotes. A number keeps its literal, as the decoder hands the literal
  to \<^verbatim>\<open>strconv\<close>. The grammar (\<open>bytes \<Rightarrow> jvalue option\<close>, \<open>None\<close> on a syntax error) is a
  parameter; how a value is stored into a Go \<^verbatim>\<open>int\<close> or \<^verbatim>\<open>string\<close> follows the
  documentation of \<^verbatim>\<open>json.Unmarshal\<close>.
\<close>

datatype jvalue =
    JNull
  | JBool bool
  | JNumber string
  | JString string
  | JArray "jvalue list"
  | JObject "(string \<times> jvalue) list"

text \<open>Decoding a JSON text into a target: parse, then store.\<close>

definition into :: "(bytes \<Rightarrow> jvalue option) \<Rightarrow> (jvalue \<Rightarrow> 'a option) \<Rightarrow> bytes \<Rightarrow> 'a option" where
  "into parse target data = (case parse data of None \<Rightarrow> None | Some v \<Rightarrow> target v)"

fun digits_value :: "string \<Rightarrow> nat \<Rightarrow> nat option" where
  "digits_value [] acc = Some acc"
| "digits_value (c # cs) acc =
     (if (48::nat) \<le> of_char c \<and> (of_char c :: nat) \<le> 57
      then digits_value cs (10 * acc + (of_char c - 48))
      else None)"

text \<open>\<^verbatim>\<open>strconv.ParseInt(s, 10, 64)\<close>: an optional sign, at least one decimal digit,
  nothing else, and a value in the range of \<^verbatim>\<open>int64\<close>.\<close>

definition ParseInt :: "string \<Rightarrow> int option" where
  "ParseInt s =
     (let neg = (s \<noteq> [] \<and> hd s = CHR ''-'');
          ds = (if s \<noteq> [] \<and> (hd s = CHR ''-'' \<or> hd s = CHR ''+'') then tl s else s)
      in if ds = [] then None
         else (case digits_value ds 0 of
                 None \<Rightarrow> None
               | Some n \<Rightarrow>
                   (let v = (if neg then - int n else int n)
                    in if v < - (2 ^ 63) \<or> 2 ^ 63 - 1 < v then None else Some v)))"

text \<open>Storing into \<^verbatim>\<open>var intID int\<close> (zero before the call): \<^verbatim>\<open>null\<close> has no effect and
  is no error, a number must be an integer literal in range, anything else is an
  \<^verbatim>\<open>UnmarshalTypeError\<close>.\<close>

fun int_target :: "jvalue \<Rightarrow> int option" where
  "int_target JNull = Some 0"
| "int_target (JNumber lit) = ParseInt lit"
| "int_target _ = None"

text \<open>Storing into \<^verbatim>\<open>var strID string\<close> (empty before the call).\<close>

fun string_target :: "jvalue \<Rightarrow> string option" where
  "string_target JNull = Some []"
| "string_target (JString s) = Some s"
| "string_target _ = None"

text \<open>\<^verbatim>\<open>fmt.Sprintf("%d", id)\<close>: the decimal digits, with a minus sign when negative.\<close>

fun utoa :: "nat \<Rightarrow> string" where
  "utoa n = (if n < 10 then [''0123456789'' ! n] else utoa (n div 10) @ [''0123456789'' ! (n mod 10)])"

declare utoa.simps [simp del]

definition Sprintf_d :: "int \<Rightarrow> string" where
  "Sprintf_d i = (if i < 0 then CHR ''-'' # utoa (nat (- i)) else utoa (nat i))"

definition idMatches :: "(bytes \<Rightarrow> jvalue option) \<Rightarrow> bytes \<Rightarrow> int \<Rightarrow> bool" where
  "idMatches parse raw id' =
     (if length raw = 0 then False
      else (case Unmarshal (into parse int_target) raw of
              Some intID \<Rightarrow> intID = id'
            | None \<Rightarrow>
                (case Unmarshal (into parse string_target) raw of
                   Some strID \<Rightarrow> strID = Sprintf_d id'
                 | None \<Rightarrow> False)))"

subsection \<open>Errors, contexts and the select statement\<close>

text \<open>The error values the client returns: its own variable \<^verbatim>\<open>errNotInitialized\<close>, the
  two errors of a context, errors of the libraries, and what \<^verbatim>\<open>fmt.Errorf\<close> builds
  (the formatted text, or a prefix wrapping another error with \<^verbatim>\<open>%w\<close>).\<close>

datatype error =
    errNotInitialized
  | Canceled
  | DeadlineExceeded
  | JSONError
  | OSError string
  | Errorf string
  | Wrapf string error

text \<open>Durations are nanoseconds, as \<^verbatim>\<open>time.Duration\<close>.\<close>

definition Second :: int where
  "Second = 1000000000"

definition appServerInitTimeout :: int where
  "appServerInitTimeout = 3 * Second"

definition appServerRequestTimeout :: int where
  "appServerRequestTimeout = 4 * Second"

datatype Context = Background | WithTimeout Context int

text \<open>One completed \<^verbatim>\<open>select\<close> in the loop of \<^verbatim>\<open>sendRequest\<close>: either
  \<^verbatim>\<open><-ctx.Done()\<close> was chosen, and \<^verbatim>\<open>ctx.Err()\<close> is the error given, or a message was
  received from \<^verbatim>\<open>c.ch\<close>.\<close>

datatype select_event = CtxDone error | Recv rpcMessage

text \<open>What a function does besides returning: it may block forever, and a nil pointer
  dereference panics.\<close>

datatype 'a outcome = Returns 'a | Blocks | Panics

subsection \<open>The environment and the client\<close>

text \<open>The Go values the client marshals: \<^verbatim>\<open>nil\<close>, an \<^verbatim>\<open>int\<close>, a \<^verbatim>\<open>string\<close>, and a map
  with string keys (listed in the order of the source).\<close>

datatype goval = GoNil | GoInt int | GoString string | GoMap "(string \<times> goval) list"

text \<open>
  Everything the client does not decide: the JSON grammar and serializer, whether the
  pipes and the child can be created, the outcome of the n-th write to the child's
  standard input, and, for a wait under a context, the selects that complete, in order
  (after the last one the \<^verbatim>\<open>select\<close> blocks forever). The messages received are those the
  goroutine \<^verbatim>\<open>readLoop\<close> sent on the queue.
\<close>

record env =
  parse :: "bytes \<Rightarrow> jvalue option"
  marshal :: "goval \<Rightarrow> bytes option"
  stdinPipe_err :: "error option"
  stdoutPipe_err :: "error option"
  start_err :: "error option"
  write_err :: "nat \<Rightarrow> error option"
  selected :: "Context \<Rightarrow> select_event list"

datatype proc_state = Running | Exited | Reaped

datatype syscall = StdinClose | StdoutClose | ProcessKill | ProcessWait

text \<open>
  The client with the state of what it points to: \<^verbatim>\<open>cmd.Process\<close> (nil until the
  child is started) with the state of the child, whether each pipe end was closed, every
  \<^verbatim>\<open>Write\<close> on the standard input with its error, and the teardown calls made, in order.
\<close>

record appServerClient =
  Process :: "proc_state option"
  stdin_closed :: bool
  stdout_closed :: bool
  written :: "(bytes \<times> error option) list"
  calls :: "syscall list"

text \<open>\<^verbatim>\<open>c.stdin.Write(data)\<close>: an error on a pipe this client closed, else what the
  environment decides for this write.\<close>

definition stdinWrite :: "env \<Rightarrow> appServerClient \<Rightarrow> bytes \<Rightarrow> error option \<times> appServerClient" where
  "stdinWrite E c data =
     (let err = (if stdin_closed c then Some (OSError ''file already closed'')
                 else write_err E (length (written c)))
      in (err, c\<lparr>written := written c @ [(data, err)]\<rparr>))"

definition sendNotification :: "env \<Rightarrow> appServerClient \<Rightarrow> string \<Rightarrow> goval \<Rightarrow> error option \<times> appServerClient" where
  "sendNotification E c method params =
     (let note = GoMap [(''method'', GoString method), (''params'', params)]
      in case marshal E note of
           None \<Rightarrow> (Some JSONError, c)
         | Some payload \<Rightarrow> stdinWrite E c (payload @ [CHR 0x0A]))"

text \<open>The \<^verbatim>\<open>for { select { ... } }\<close> of \<^verbatim>\<open>sendRequest\<close> over the selects that complete.
  The output slot \<open>out\<close> is \<open>None\<close> for \<^verbatim>\<open>nil\<close>, else how a JSON value is stored into it; the
  result is the error returned, or the value the slot holds on success.\<close>

fun awaitResponse :: "(bytes \<Rightarrow> jvalue option) \<Rightarrow> int \<Rightarrow> (jvalue \<Rightarrow> 'a option) option \<Rightarrow>
    select_event list \<Rightarrow> (error + 'a option) outcome" where
  "awaitResponse P id' out [] = Blocks"
| "awaitResponse P id' out (CtxDone err # evs) = Returns (Inl err)"
| "awaitResponse P id' out (Recv msg # evs) =
     (case Error msg of
        Some e \<Rightarrow>
          (if Message e = ''Not initialized'' then Returns (Inl errNotInitialized)
           else Returns (Inl (Errorf (''codex app-server error: '' @ Message e))))
      | None \<Rightarrow>
          (if \<not> idMatches P (ID msg) id' then awaitResponse P id' out evs
           else (case out of
                   None \<Rightarrow> Returns (Inr None)
                 | Some target \<Rightarrow>
                     (case Unmarshal (into P target) (Result msg) of
                        None \<Rightarrow> Returns (Inl (Wrapf ''codex app-server parse: '' JSONError))
                      | Some v \<Rightarrow> Returns (Inr (Some v))))))"

definition sendRequest :: "env \<Rightarrow> appServerClient \<Rightarrow> Context \<Rightarrow> int \<Rightarrow> string \<Rightarrow> goval \<Rightarrow>
    (jvalue \<Rightarrow> 'a option) option \<Rightarrow> (error + 'a option) outcome \<times> appServerClient" where
  "sendRequest E c ctx id' method params out =
     (let req = GoMap [(''id'', GoInt id'), (''method'', GoString method), (''params'', params)]
      in case marshal E req of
           None \<Rightarrow> (Returns (Inl JSONError), c)
         | Some payload \<Rightarrow>
             (case stdinWrite E c (payload @ [CHR 0x0A]) of
                (Some err, c') \<Rightarrow> (Returns (Inl err), c')
              | (None, c') \<Rightarrow> (awaitResponse (parse E) id' out (selected E ctx), c')))"

definition initialize :: "env \<Rightarrow> appServerClient \<Rightarrow> Context \<Rightarrow> (error option) outcome \<times> appServerClient" where
  "initialize E c ctx =
     (let initCtx = WithTimeout ctx appServerInitTimeout;
          params = GoMap [(''clientInfo'', GoMap [(''name'', GoString ''ccstats''), (''version'', GoString ''0.0.0'')])]
      in case sendRequest E c initCtx 1 ''initialize'' params (None :: (jvalue \<Rightarrow> unit option) option) of
           (Returns (Inl err), c') \<Rightarrow> (Returns (Some err), c')
         | (Returns (Inr _), c') \<Rightarrow>
             (case sendNotification E c' ''initialized'' GoNil of (r, c'') \<Rightarrow> (Returns r, c''))
         | (Blocks, c') \<Rightarrow> (Blocks, c')
         | (Panics, c') \<Rightarrow> (Panics, c'))"

subsection \<open>Close\<close>

text \<open>The four calls of \<^verbatim>\<open>Close\<close> on the operating system's objects, each with the error
  it returns: closing a closed pipe end is an error; a signal reaches a child that was not
  yet waited for; waiting blocks while the child runs and fails once it was waited for.\<close>

definition stdinClose :: "appServerClient \<Rightarrow> error option \<times> appServerClient" where
  "stdinClose c =
     ((if stdin_closed c then Some (OSError ''file already closed'') else None),
      c\<lparr>stdin_closed := True, calls := calls c @ [StdinClose]\<rparr>)"

definition stdoutClose :: "appServerClient \<Rightarrow> error option \<times> appServerClient" where
  "stdoutClose c =
     ((if stdout_closed c then Some (OSError ''file already closed'') else None),
      c\<lparr>stdout_closed := True, calls := calls c @ [StdoutClose]\<rparr>)"

fun processKill :: "proc_state \<Rightarrow> error option \<times> proc_state" where
  "processKill Running = (None, Exited)"
| "processKill Exited = (None, Exited)"
| "processKill Reaped = (Some (OSError ''process already finished''), Reaped)"

fun processWait :: "proc_state \<Rightarrow> (error option \<times> proc_state) outcome" where
  "processWait Running = Blocks"
| "processWait Exited = Returns (None, Reaped)"
| "processWait Reaped = Returns (Some (OSError ''no child processes''), Reaped)"

text \<open>Every result is discarded (\<^verbatim>\<open>_ = ...\<close>). \<^verbatim>\<open>c.cmd.Process.Kill()\<close> dereferences
  \<^verbatim>\<open>c.cmd.Process\<close>.\<close>

definition Close :: "appServerClient \<Rightarrow> unit outcome \<times> appServerClient" where
  "Close c =
     (let c1 = snd (stdinClose c);
          c2 = snd (stdoutClose c1)
      in case Process c2 of
           None \<Rightarrow> (Panics, c2)
         | Some p \<Rightarrow>
             (let c3 = c2\<lparr>Process := Some (snd (processKill p)), calls := calls c2 @ [ProcessKill]\<rparr>;
                  c4 = c3\<lparr>calls := calls c3 @ [ProcessWait]\<rparr>
              in case processWait (snd (processKill p)) of
                   Returns (_, p') \<Rightarrow> (Returns (), c4\<lparr>Process := Some p'\<rparr>)
                 | Blocks \<Rightarrow> (Blocks, c4)
                 | Panics \<Rightarrow> (Panics, c4)))"

subsection \<open>newAppServerClient\<close>

text \<open>The pair the constructor returns, and beside it the client it built, if any, in
  its last state (the child and the pipes exist whether or not the pointer is returned).\<close>

definition newAppServerClient :: "env \<Rightarrow> Context \<Rightarrow>
    (appServerClient option \<times> error option) outcome \<times> appServerClient option" where
  "newAppServerClient E ctx =
     (case stdinPipe_err E of
        Some err \<Rightarrow> (Returns (None, Some (Wrapf ''codex app-server stdin: '' err)), None)
      | None \<Rightarrow>
     (case stdoutPipe_err E of
        Some err \<Rightarrow> (Returns (None, Some (Wrapf ''codex app-server stdout: '' err)), None)
      | None \<Rightarrow>
     (case start_err E of
        Some err \<Rightarrow> (Returns (None, Some (Wrapf ''codex app-server start: '' err)), None)
      | None \<Rightarrow>
     (let client = \<lparr>Process = Some Running, stdin_closed = False, stdout_closed = False,
                     written = [], calls = []\<rparr>
      in case initialize E client ctx of
           (Returns (Some err), c') \<Rightarrow>
             (case Close c' of
                (Returns _, c'') \<Rightarrow> (Returns (None, Some err), Some c'')
              | (Blocks, c'') \<Rightarrow> (Blocks, Some c'')
              | (Panics, c'') \<Rightarrow> (Panics, Some c''))
         | (Returns None, c') \<Rightarrow> (Returns (Some c', None), Some c')
         | (Blocks, c') \<Rightarrow> (Blocks, Some c')
         | (Panics, c') \<Rightarrow> (Panics, Some c')))))"

text \<open>The client as the constructor builds it, the child just started.\<close>

definition started_client :: appServerClient where
  "started_client =
     \<lparr>Process = Some Running, stdin_closed = False, stdout_closed = False,
      written = [], calls = []\<rparr>"

text \<open>A completed select that neither cancels, nor carries an error descriptor, nor
  carries the awaited identifier.\<close>

definition passed_over :: "(bytes \<Rightarrow> jvalue option) \<Rightarrow> int \<Rightarrow> select_event \<Rightarrow> bool" where
  "passed_over P id' ev =
     (case ev of
        CtxDone err \<Rightarrow> False
      | Recv msg \<Rightarrow> Error msg = None \<and> \<not> idMatches P (ID msg) id')"

subsection \<open>The select and the token\<close>

text \<open>
  What decides the selects of a wait. During the wait messages arrive on the queue and the
  token of the context may fire, in some order; the program does not decide when its next
  \<^verbatim>\<open>select\<close> runs, nor which case a \<^verbatim>\<open>select\<close> takes when several are ready.
\<close>

datatype occurrence = Arrived rpcMessage | Fired error

text \<open>\<^verbatim>\<open>context.WithTimeout\<close> gives a context with a deadline; \<^verbatim>\<open>context.Background()\<close>
  has none.\<close>

fun has_deadline :: "Context \<Rightarrow> bool" where
  "has_deadline Background = False"
| "has_deadline (WithTimeout parent d) = True"

text \<open>The error of the token once it has fired (\<^verbatim>\<open>ctx.Err()\<close>): that of the first
  firing. The messages that arrive, in order.\<close>

fun first_fired :: "occurrence list \<Rightarrow> error option" where
  "first_fired [] = None"
| "first_fired (Fired err # occs) = Some err"
| "first_fired (Arrived msg # occs) = first_fired occs"

fun arrivals :: "occurrence list \<Rightarrow> rpcMessage list" where
  "arrivals [] = []"
| "arrivals (Fired err # occs) = arrivals occs"
| "arrivals (Arrived msg # occs) = msg # arrivals occs"

text \<open>What happens during a wait under \<open>ctx\<close>, given what the environment makes happen:
  the token of a context with a deadline fires at the latest when the deadline passes.\<close>

definition timeline :: "Context \<Rightarrow> occurrence list \<Rightarrow> occurrence list" where
  "timeline ctx occs =
     (if has_deadline ctx \<and> first_fired occs = None then occs @ [Fired DeadlineExceeded] else occs)"

text \<open>The scheduling of the loop: before its n-th \<^verbatim>\<open>select\<close> is executed, \<open>delay n\<close> more
  occurrences have happened; when a message is waiting and the token has fired, the n-th
  \<^verbatim>\<open>select\<close> takes the receive if \<open>prefer_recv n\<close> and the token otherwise (Go chooses at
  random).\<close>

record sched =
  delay :: "nat \<Rightarrow> nat"
  prefer_recv :: "nat \<Rightarrow> bool"

text \<open>The messages waiting in the queue, the error of the token if it has fired, and
  what is still to happen.\<close>

type_synonym wait_state = "rpcMessage list \<times> error option \<times> occurrence list"

text \<open>The next \<open>k\<close> occurrences happen: a message that arrives joins the queue, the first
  firing sets the error of the token.\<close>

fun elapse :: "nat \<Rightarrow> wait_state \<Rightarrow> wait_state" where
  "elapse 0 w = w"
| "elapse (Suc k) (queue, fired, []) = (queue, fired, [])"
| "elapse (Suc k) (queue, fired, Arrived msg # occs) = elapse k (queue @ [msg], fired, occs)"
| "elapse (Suc k) (queue, fired, Fired err # occs) =
     elapse k (queue, (case fired of None \<Rightarrow> Some err | Some e \<Rightarrow> Some e), occs)"

text \<open>What is left to receive or to happen; it bounds the number of selects.\<close>

definition weight :: "wait_state \<Rightarrow> nat" where
  "weight w = (case w of (queue, fired, occs) \<Rightarrow> length queue + length occs)"

text \<open>
  The selects that complete, in order, up to the first that takes the token. A \<^verbatim>\<open>select\<close>
  with a ready case takes one at once; with none it blocks until the next occurrence and
  takes the case that occurrence makes ready; with none and nothing more to happen it
  blocks forever.
\<close>

function selects :: "sched \<Rightarrow> nat \<Rightarrow> wait_state \<Rightarrow> select_event list" where
  "selects sch n w =
     (case elapse (delay sch n) w of
        (msg # queue, Some err, occs) \<Rightarrow>
          if prefer_recv sch n then Recv msg # selects sch (Suc n) (queue, Some err, occs)
          else [CtxDone err]
      | (msg # queue, None, occs) \<Rightarrow> Recv msg # selects sch (Suc n) (queue, None, occs)
      | ([], Some err, occs) \<Rightarrow> [CtxDone err]
      | ([], None, []) \<Rightarrow> []
      | ([], None, Arrived msg # occs) \<Rightarrow> Recv msg # selects sch (Suc n) ([], None, occs)
      | ([], None, Fired err # occs) \<Rightarrow> [CtxDone err])"
  by pat_completeness auto
termination
proof -
  have le: "length queue + length occs \<le> weight w"
    if "(queue, fired, occs) = elapse k w" for k w queue fired occs
  proof -
    have "weight (elapse k w) \<le> weight w"
      by (induction k w rule: elapse.induct) (auto simp: weight_def)
    with that [symmetric] show ?thesis by (simp add: weight_def)
  qed
  show ?thesis
    by (relation "measure (\<lambda>(sch, n, w). weight w)") (auto dest!: le simp: weight_def)
qed

declare selects.simps [simp del]

text \<open>The messages a wait can still receive, and the error of its token, fired or to fire.\<close>

fun pending :: "wait_state \<Rightarrow> rpcMessage list" where
  "pending (queue, fired, occs) = queue @ arrivals occs"

fun token :: "wait_state \<Rightarrow> error option" where
  "token (queue, Some err, occs) = Some err"
| "token (queue, None, occs) = first_fired occs"

text \<open>The form of the selects of a wait: receives of the first pending messages, then the
  token if it fires.\<close>

definition shape :: "sched \<Rightarrow> nat \<Rightarrow> wait_state \<Rightarrow> rpcMessage list \<Rightarrow> bool" where
  "shape sch n w ms \<longleftrightarrow>
     prefix ms (pending w) \<and>
     selects sch n w = map Recv ms @ (case token w of Some err \<Rightarrow> [CtxDone err] | None \<Rightarrow> []) \<and>
     (token w = None \<longrightarrow> ms = pending w)"

subsection \<open>Concurrent writers\<close>

text \<open>
  Several goroutines may call \<^verbatim>\<open>sendRequest\<close> and \<^verbatim>\<open>sendNotification\<close> on one client. What
  each does to the mutex \<^verbatim>\<open>c.mu\<close> and to the stream \<^verbatim>\<open>c.stdin\<close> is a short program:
  \<^verbatim>\<open>c.mu.Lock()\<close>, \<^verbatim>\<open>c.stdin.Write(append(payload, '\n'))\<close>, \<^verbatim>\<open>c.mu.Unlock()\<close> (deferred to
  the return in \<^verbatim>\<open>sendNotification\<close>, which comes right after the write).
\<close>

datatype instr = Lock | Write bytes | Unlock

text \<open>A call in flight, with the payload \<^verbatim>\<open>json.Marshal\<close> gave it.\<close>

datatype call = RequestCall bytes | NotificationCall bytes

fun line_of :: "call \<Rightarrow> bytes" where
  "line_of (RequestCall payload) = payload @ [CHR 0x0A]"
| "line_of (NotificationCall payload) = payload @ [CHR 0x0A]"

fun critical_section :: "call \<Rightarrow> instr list" where
  "critical_section (RequestCall payload) = [Lock, Write (payload @ [CHR 0x0A]), Unlock]"
| "critical_section (NotificationCall payload) = [Lock, Write (payload @ [CHR 0x0A]), Unlock]"

text \<open>
  The goroutines' remaining programs, whether the mutex is locked, whether a write has
  failed, and the bytes that have reached the stream. Any goroutine may take the next
  step. \<^verbatim>\<open>Lock\<close> needs the mutex unlocked. A \<^verbatim>\<open>Write\<close> is not atomic: it passes its bytes
  to the stream one step at a time, and nothing but the programs keeps another goroutine
  from writing in between. A \<^verbatim>\<open>Write\<close> may fail at any point and return; the pipe is then
  broken or closed, and no later byte reaches the stream.
\<close>

type_synonym config = "instr list list \<times> bool \<times> bool \<times> bytes"

inductive step :: "config \<Rightarrow> config \<Rightarrow> bool" where
  lock: "i < length ts \<Longrightarrow> ts ! i = Lock # r \<Longrightarrow>
     step (ts, False, broken, out) (ts[i := r], True, broken, out)"
| write_byte: "i < length ts \<Longrightarrow> ts ! i = Write (b # bs) # r \<Longrightarrow>
     step (ts, l, False, out) (ts[i := Write bs # r], l, False, out @ [b])"
| write_done: "i < length ts \<Longrightarrow> ts ! i = Write [] # r \<Longrightarrow>
     step (ts, l, broken, out) (ts[i := r], l, broken, out)"
| write_fail: "i < length ts \<Longrightarrow> ts ! i = Write bs # r \<Longrightarrow>
     step (ts, l, broken, out) (ts[i := r], l, True, out)"
| unlock: "i < length ts \<Longrightarrow> ts ! i = Unlock # r \<Longrightarrow>
     step (ts, l, broken, out) (ts[i := r], False, broken, out)"

code_pred step .

text \<open>The invariant of the reachable configurations: the stream is the lines of the
  goroutines that are done, then what the goroutine holding the mutex has written of its
  line; every other goroutine is done or has not locked yet.\<close>

definition idle_or_done :: "call list \<Rightarrow> instr list list \<Rightarrow> nat \<Rightarrow> bool" where
  "idle_or_done cs ts j \<longleftrightarrow> ts ! j = [] \<or> ts ! j = critical_section (cs ! j)"

definition holds :: "call list \<Rightarrow> instr list list \<Rightarrow> bytes \<Rightarrow> nat \<Rightarrow> bool" where
  "holds cs ts p h \<longleftrightarrow>
     h < length cs \<and>
     ((ts ! h = [Unlock] \<and> p = line_of (cs ! h)) \<or>
      (\<exists>r. ts ! h = [Write r, Unlock] \<and> p @ r = line_of (cs ! h))) \<and>
     (\<forall>j < length cs. j \<noteq> h \<longrightarrow> idle_or_done cs ts j)"

definition serial_inv :: "call list \<Rightarrow> instr list list \<times> bool \<times> bytes \<Rightarrow> bool" where
  "serial_inv cs cfg \<longleftrightarrow>
     (case cfg of (ts, l, out) \<Rightarrow>
        length ts = length cs \<and>
        (\<exists>ks p. out = concat (map (\<lambda>k. line_of (cs ! k)) ks) @ p \<and> distinct ks \<and>
           set ks = {i. i < length cs \<and> ts ! i = []} \<and>
           (if l then \<exists>h. holds cs ts p h
            else p = [] \<and> (\<forall>j < length cs. idle_or_done cs ts j))))"

text \<open>No partial line is interleaved: the stream is made of complete lines of distinct
  calls, followed at most by the beginning of the line of one more call.\<close>

definition serialized :: "call list \<Rightarrow> bytes \<Rightarrow> bool" where
  "serialized cs out \<longleftrightarrow>
     (\<exists>ks p. distinct ks \<and> set ks \<subseteq> {..<length cs} \<and>
        out = concat (map (\<lambda>k. line_of (cs ! k)) ks) @ p \<and>
        (p = [] \<or> (\<exists>h r. h < length cs \<and> h \<notin> set ks \<and> p @ r = line_of (cs ! h))))"

text \<open>While the stream works the invariant holds; once a write has failed the stream
  keeps what it held, which was serialized.\<close>

definition stream_inv :: "call list \<Rightarrow> config \<Rightarrow> bool" where
  "stream_inv cs cfg \<longleftrightarrow>
     (case cfg of (ts, l, broken, out) \<Rightarrow>
        if broken then serialized cs out else serial_inv cs (ts, l, out))"

subsection \<open>A concrete environment\<close>

text \<open>To run the model on concrete inputs: a serializer for the values the client
  marshals (keys in the order given, no escaping), a grammar and a message decoder that
  know a few texts, and an environment in which nothing fails and no select completes.\<close>

definition quote :: "string \<Rightarrow> string" where
  "quote s = CHR 0x22 # s @ [CHR 0x22]"

fun encode :: "goval \<Rightarrow> string" and encode_fields :: "(string \<times> goval) list \<Rightarrow> string" where
  "encode GoNil = ''null''"
| "encode (GoInt i) = Sprintf_d i"
| "encode (GoString s) = quote s"
| "encode (GoMap kvs) = ''{'' @ encode_fields kvs @ ''}''"
| "encode_fields [] = []"
| "encode_fields ((k, v) # kvs) =
     quote k @ '':'' @ encode v @ (if kvs = [] then [] else '','' @ encode_fields kvs)"

definition sample_parse :: "bytes \<Rightarrow> jvalue option" where
  "sample_parse = map_of
     [(''1'', JNumber ''1''), (''2'', JNumber ''2''), (''7'', JNumber ''7''),
      (quote ''1'', JString ''1''), (quote ''x'', JString ''x''), (''null'', JNull),
      (''{}'', JObject [])]"

definition response :: "bytes \<Rightarrow> bytes \<Rightarrow> rpcMessage" where
  "response raw_id raw_result = \<lparr>ID = raw_id, Method = [], Params = [], Result = raw_result, Error = None\<rparr>"

definition failure :: "bytes \<Rightarrow> string \<Rightarrow> rpcMessage" where
  "failure raw_id text =
     \<lparr>ID = raw_id, Method = [], Params = [], Result = [], Error = Some \<lparr>Code = - 1, Message = text\<rparr>\<rparr>"

definition sample_decode :: "bytes \<Rightarrow> rpcMessage option" where
  "sample_decode = map_of
     [(''{'' @ quote ''id'' @ '':3,'' @ quote ''result'' @ '':7}'', response ''3'' ''7''),
      (''{'' @ quote ''id'' @ '':4,'' @ quote ''result'' @ '':1}'', response ''4'' ''1'')]"

definition sample_line :: bytes where
  "sample_line = ''{'' @ quote ''id'' @ '':3,'' @ quote ''result'' @ '':7}'' @ [CHR 0x0A]"

definition sample_env :: env where
  "sample_env =
     \<lparr>parse = sample_parse, marshal = (\<lambda>v. Some (encode v)),
      stdinPipe_err = None, stdoutPipe_err = None, start_err = None,
      write_err = (\<lambda>n. None), selected = (\<lambda>ctx. [])\<rparr>"

text \<open>The same environment, in which every wait sees the given selects complete.\<close>

definition waiting_env :: "select_event list \<Rightarrow> env" where
  "waiting_env evs = sample_env\<lparr>selected := (\<lambda>ctx. evs)\<rparr>"

text \<open>The same, with a standard input on which every write fails.\<close>

definition failing_write_env :: "select_event list \<Rightarrow> env" where
  "failing_write_env evs = (waiting_env evs)\<lparr>write_err := (\<lambda>n. Some (OSError ''broken pipe''))\<rparr>"

text \<open>A call that is in the select whenever something happens; and a call whose selects
  each run after two more occurrences and take the receive when both cases are ready.\<close>

definition prompt :: sched where
  "prompt = \<lparr>delay = (\<lambda>n. 0), prefer_recv = (\<lambda>n. False)\<rparr>"

definition late :: sched where
  "late = \<lparr>delay = (\<lambda>n. 2), prefer_recv = (\<lambda>n. True)\<rparr>"

section \<open>Properties\<close>

subsection \<open>Trimming\<close>

lemma trimStart_takeWhile:
  "start \<le> end' \<Longrightarrow> end' \<le> length b \<Longrightarrow>
   trimStart b start end' = start + length (takeWhile trimmed_byte (take (end' - start) (drop start b)))"
proof (induction b start end' rule: trimStart.induct)
  case (1 b start end')
  show ?case
  proof (cases "start < end' \<and> trimmed_byte (b ! start)")
    case True
    then have lt: "start < end'" and sp: "trimmed_byte (b ! start)" by simp_all
    from lt "1.prems" have inb: "start < length b" by simp
    have dr: "drop start b = b ! start # drop (start + 1) b"
      using inb by (simp add: Cons_nth_drop_Suc)
    have tk: "take (end' - start) (drop start b) = b ! start # take (end' - (start + 1)) (drop (start + 1) b)"
      using lt by (simp add: dr take_Cons')
    have ih: "trimStart b (start + 1) end' =
        (start + 1) + length (takeWhile trimmed_byte (take (end' - (start + 1)) (drop (start + 1) b)))"
      using "1.IH" True lt "1.prems" by simp
    have "trimStart b start end' = trimStart b (start + 1) end'"
      using True by (subst trimStart.simps) simp
    then show ?thesis using ih tk sp by simp
  next
    case False
    have st: "trimStart b start end' = start"
      using False by (subst trimStart.simps) auto
    show ?thesis
    proof (cases "start < end'")
      case True
      with False have ns: "\<not> trimmed_byte (b ! start)" by simp
      from True "1.prems" have inb: "start < length b" by simp
      have "take (end' - start) (drop start b) = b ! start # take (end' - (start + 1)) (drop (start + 1) b)"
        using True inb by (simp add: Cons_nth_drop_Suc [symmetric] take_Cons')
      then show ?thesis using st ns by simp
    next
      case False
      then show ?thesis using st by simp
    qed
  qed
qed

lemma trimEnd_takeWhile:
  "start \<le> end' \<Longrightarrow> end' \<le> length b \<Longrightarrow>
   trimEnd b start end' = end' - length (takeWhile trimmed_byte (rev (take (end' - start) (drop start b))))"
proof (induction b start end' rule: trimEnd.induct)
  case (1 b start end')
  show ?case
  proof (cases "start < end'")
    case False
    have "trimEnd b start end' = end'"
      using False by (subst trimEnd.simps) simp
    then show ?thesis using False by simp
  next
    case True
    define i where "i = end' - 1 - start"
    have ilen: "i < length (drop start b)" using True "1.prems" by (simp add: i_def)
    have es: "end' - start = Suc i" using True by (simp add: i_def)
    have nth: "drop start b ! i = b ! (end' - 1)"
      using True "1.prems" by (simp add: i_def)
    have tk: "take (end' - start) (drop start b) = take i (drop start b) @ [b ! (end' - 1)]"
      using take_Suc_conv_app_nth [OF ilen] es nth by simp
    show ?thesis
    proof (cases "trimmed_byte (b ! (end' - 1))")
      case sp: True
      have step: "trimEnd b start end' = trimEnd b start (end' - 1)"
        using True sp by (subst trimEnd.simps) simp
      have ih: "trimEnd b start (end' - 1) =
          (end' - 1) - length (takeWhile trimmed_byte (rev (take (end' - 1 - start) (drop start b))))"
        using "1.IH" True sp "1.prems" by simp
      have le: "length (takeWhile trimmed_byte (rev (take i (drop start b)))) \<le> i"
        using length_takeWhile_le [of trimmed_byte "rev (take i (drop start b))"] ilen by simp
      show ?thesis using step ih tk sp le True by (simp add: i_def)
    next
      case ns: False
      have "trimEnd b start end' = end'"
        using ns by (subst trimEnd.simps) simp
      then show ?thesis using tk ns by simp
    qed
  qed
qed

lemma trimmed_byte_whitespace: "trimmed_byte = json_whitespace"
  by (rule ext) (auto simp: trimmed_byte_def json_whitespace_def)

lemma bytesTrimSpace_trim_spec: "bytesTrimSpace b = trim_spec b"
proof -
  define start where "start = trimStart b 0 (length b)"
  define d where "d = drop start b"
  have s: "start = length (takeWhile trimmed_byte b)"
    using trimStart_takeWhile [of 0 "length b" b] by (simp add: start_def)
  have sle: "start \<le> length b" using length_takeWhile_le [of trimmed_byte b] s by simp
  have d': "d = dropWhile trimmed_byte b"
    by (simp add: d_def s dropWhile_eq_drop)
  define k where "k = length (takeWhile trimmed_byte (rev d))"
  have e: "trimEnd b start (length b) = length b - k"
    using trimEnd_takeWhile [OF sle, of b] by (simp add: k_def d_def)
  have kle: "k \<le> length d" using length_takeWhile_le [of trimmed_byte "rev d"] by (simp add: k_def)
  have "bytesTrimSpace b = take (length b - k - start) d"
    by (simp add: bytesTrimSpace_def slice_def Let_def start_def [symmetric] e d_def)
  also have "length b - k - start = length d - k" by (simp add: d_def)
  also have "take (length d - k) d = rev (drop k (rev d))"
    by (simp add: rev_drop)
  also have "drop k (rev d) = dropWhile trimmed_byte (rev d)"
    by (simp add: k_def dropWhile_eq_drop)
  finally show ?thesis by (simp add: trim_spec_def d' trimmed_byte_whitespace)
qed

subsection \<open>The reader\<close>

lemma spec_Nil [simp]: "delivered_spec decode [] = []"
  by (simp add: delivered_spec_def List.map_filter_simps)

lemma spec_Cons:
  "delivered_spec decode (line # lines) =
     (if bytesTrimSpace line = [] then delivered_spec decode lines
      else (case Unmarshal decode (bytesTrimSpace line) of
              None \<Rightarrow> delivered_spec decode lines
            | Some msg \<Rightarrow> msg # delivered_spec decode lines))"
  by (simp add: delivered_spec_def List.map_filter_simps bytesTrimSpace_trim_spec Unmarshal_def
      split: option.splits)

lemma sent_chan_recv [simp]: "sent (chan_recv n q) = sent q"
  by (simp add: sent_def chan_recv_def)

lemma chan_send_Inr:
  "chan_send takes q msg = Inr (takes', q') \<Longrightarrow>
     sent q' = sent q @ [msg] \<and> takes' = tl takes \<and>
     (length (buffered q) \<le> chan_capacity \<longrightarrow> length (buffered q') \<le> chan_capacity)"
  by (auto simp: chan_send_def Let_def sent_def chan_recv_def split: if_splits)

lemma chan_send_Inl:
  "chan_send takes q msg = Inl q' \<Longrightarrow>
     sent q' = sent q \<and> chan_capacity \<le> length (buffered q') \<and>
     (length (buffered q) \<le> chan_capacity \<longrightarrow> length (buffered q') \<le> chan_capacity)"
  by (auto simp: chan_send_def Let_def sent_def chan_recv_def split: if_splits)

lemma chan_send_room:
  "length (buffered q) \<le> chan_capacity \<Longrightarrow> takes = n # ns \<Longrightarrow> 0 < n \<Longrightarrow>
     \<exists>q'. chan_send takes q msg = Inr (ns, q')"
  by (cases "buffered q") (auto simp: chan_send_def Let_def chan_recv_def chan_capacity_def)

text \<open>What the loop has sent when it ends, from any queue.\<close>

lemma readLoop_sent:
  "readLoop decode reads takes q0 = (r, q) \<Longrightarrow>
     (r = BlockedSending m \<longrightarrow>
        chan_capacity \<le> length (buffered q) \<and>
        prefix (sent q @ [m]) (sent q0 @ delivered_spec decode (lines_read reads))) \<and>
     ((\<forall>m'. r \<noteq> BlockedSending m') \<longrightarrow>
        sent q = sent q0 @ delivered_spec decode (lines_read reads))"
proof (induction decode reads takes q0 rule: readLoop.induct)
  case (1 decode takes ch)
  then show ?case by auto
next
  case (2 decode partial reads takes ch)
  then show ?case by auto
next
  case (3 decode line reads takes ch)
  show ?case
  proof (cases "bytesTrimSpace line = []")
    case True
    with 3 show ?thesis by (simp add: spec_Cons)
  next
    case False
    show ?thesis
    proof (cases "Unmarshal decode (bytesTrimSpace line)")
      case None
      with 3 False show ?thesis by (simp add: spec_Cons)
    next
      case (Some msg)
      show ?thesis
      proof (cases "chan_send takes ch msg")
        case (Inl ch')
        from chan_send_Inl [OF Inl] have "sent ch' = sent ch" "chan_capacity \<le> length (buffered ch')"
          by simp_all
        moreover from "3.prems" False Some Inl have "r = BlockedSending msg" "q = ch'" by simp_all
        ultimately show ?thesis using False Some by (auto simp: spec_Cons)
      next
        case (Inr p)
        obtain takes' ch' where p: "p = (takes', ch')" by (cases p)
        from chan_send_Inr [OF Inr [unfolded p]] have s: "sent ch' = sent ch @ [msg]" by simp
        from "3.prems" False Some Inr p have "readLoop decode reads takes' ch' = (r, q)" by simp
        from "3.IH"(3) [OF refl _ Some Inr [unfolded p] refl this] False
        have "(r = BlockedSending m \<longrightarrow>
                chan_capacity \<le> length (buffered q) \<and>
                prefix (sent q @ [m]) (sent ch' @ delivered_spec decode (lines_read reads))) \<and>
              ((\<forall>m'. r \<noteq> BlockedSending m') \<longrightarrow>
                sent q = sent ch' @ delivered_spec decode (lines_read reads))"
          by simp
        then show ?thesis using s False Some by (simp add: spec_Cons)
      qed
    qed
  qed
qed

lemma readLoop_buffered:
  "readLoop decode reads takes q0 = (r, q) \<Longrightarrow> length (buffered q0) \<le> chan_capacity \<Longrightarrow>
     length (buffered q) \<le> chan_capacity"
proof (induction decode reads takes q0 rule: readLoop.induct)
  case (3 decode line reads takes ch)
  show ?case
  proof (cases "bytesTrimSpace line = []")
    case True
    with 3 show ?thesis by simp
  next
    case False
    show ?thesis
    proof (cases "Unmarshal decode (bytesTrimSpace line)")
      case None
      with 3 False show ?thesis by simp
    next
      case (Some msg)
      show ?thesis
      proof (cases "chan_send takes ch msg")
        case (Inl ch')
        from chan_send_Inl [OF Inl] "3.prems"(2) have "length (buffered ch') \<le> chan_capacity" by simp
        moreover from "3.prems" False Some Inl have "q = ch'" by simp
        ultimately show ?thesis by simp
      next
        case (Inr p)
        obtain takes' ch' where p: "p = (takes', ch')" by (cases p)
        from chan_send_Inr [OF Inr [unfolded p]] "3.prems"(2)
        have b: "length (buffered ch') \<le> chan_capacity" by simp
        from "3.prems" False Some Inr p have "readLoop decode reads takes' ch' = (r, q)" by simp
        from "3.IH"(3) [OF refl _ Some Inr [unfolded p] refl this b] False show ?thesis by simp
      qed
    qed
  qed
qed auto

text \<open>When a message is received before each send, no send blocks.\<close>

lemma readLoop_receivers:
  "list_all (\<lambda>n. 0 < n) takes \<Longrightarrow>
   length (delivered_spec decode (lines_read reads)) \<le> length takes \<Longrightarrow>
   length (buffered q0) \<le> chan_capacity \<Longrightarrow>
   fst (readLoop decode reads takes q0) \<noteq> BlockedSending m"
proof (induction decode reads takes q0 rule: readLoop.induct)
  case (3 decode line reads takes ch)
  show ?case
  proof (cases "bytesTrimSpace line = []")
    case True
    with 3 show ?thesis by (simp add: spec_Cons)
  next
    case False
    show ?thesis
    proof (cases "Unmarshal decode (bytesTrimSpace line)")
      case None
      with 3 False show ?thesis by (simp add: spec_Cons)
    next
      case (Some msg)
      from "3.prems"(2) False Some obtain n ns where t: "takes = n # ns"
        by (cases takes) (simp_all add: spec_Cons)
      with "3.prems"(1) have n: "0 < n" and ns: "list_all (\<lambda>n. 0 < n) ns" by simp_all
      from chan_send_room [OF "3.prems"(3) t n] obtain ch' where s: "chan_send takes ch msg = Inr (ns, ch')"
        by blast
      from chan_send_Inr [OF s] "3.prems"(3) have b: "length (buffered ch') \<le> chan_capacity" by simp
      from "3.prems"(2) False Some t have l: "length (delivered_spec decode (lines_read reads)) \<le> length ns"
        by (simp add: spec_Cons)
      from "3.IH"(3) [OF refl _ Some s refl ns l b] False
      have "fst (readLoop decode reads ns ch') \<noteq> BlockedSending m" by simp
      then show ?thesis using False Some s by simp
    qed
  qed
qed auto

text \<open>
  Claim C3, as stated, fails: with seventeen lines that each decode to a message and no
  receiver, the loop has sent sixteen messages and stays in the send of the seventeenth,
  which is not delivered to the queue.
\<close>

theorem readLoop_full_queue_counterexample:
  "readLoop sample_decode (replicate 17 (ReadOk sample_line)) [] empty_chan =
     (BlockedSending (response ''3'' ''7''),
      \<lparr>received = [], buffered = replicate 16 (response ''3'' ''7'')\<rparr>)
   \<and> delivered_spec sample_decode (lines_read (replicate 17 (ReadOk sample_line))) =
       replicate 17 (response ''3'' ''7'')"
  by code_simp

text \<open>
  Claim C3, amended. Whatever the reads return and whatever the receivers do, the
  messages \<^verbatim>\<open>readLoop\<close> has sent on the queue are, in the order the lines were read, the
  first of the messages obtained from the lines read before the first read error by
  trimming each line of surrounding whitespace (space, tab, line feed, carriage return),
  skipping the lines that are empty after trimming and discarding the lines that do not
  decode. The queue holds at most 16 messages not yet received; the loop sends all the
  messages unless it stays in a send to the full queue, and then the message it is sending
  is the next one. All of them are sent when there are at most 16, and when a message is
  received before each send. A line that is empty or does not decode neither ends nor
  blocks the loop.
\<close>

theorem readLoop_delivers:
  assumes "readLoop decode reads takes empty_chan = (r, q)"
  shows "prefix (sent q) (delivered_spec decode (lines_read reads))
     \<and> length (buffered q) \<le> chan_capacity
     \<and> (\<forall>m. r = BlockedSending m \<longrightarrow>
           length (buffered q) = chan_capacity \<and>
           prefix (sent q @ [m]) (delivered_spec decode (lines_read reads)))
     \<and> ((\<forall>m. r \<noteq> BlockedSending m) \<longrightarrow> sent q = delivered_spec decode (lines_read reads))
     \<and> (length (delivered_spec decode (lines_read reads)) \<le> chan_capacity \<longrightarrow>
           sent q = delivered_spec decode (lines_read reads))
     \<and> (list_all (\<lambda>n. 0 < n) takes \<and> length (delivered_spec decode (lines_read reads)) \<le> length takes \<longrightarrow>
           sent q = delivered_spec decode (lines_read reads))"
proof -
  let ?spec = "delivered_spec decode (lines_read reads)"
  have e: "sent empty_chan = []" "length (buffered empty_chan) \<le> chan_capacity"
    by (simp_all add: sent_def empty_chan_def)
  have cap: "length (buffered q) \<le> chan_capacity"
    using readLoop_buffered [OF assms e(2)] .
  have blocked: "chan_capacity \<le> length (buffered q) \<and> prefix (sent q @ [m]) ?spec"
    if "r = BlockedSending m" for m
    using readLoop_sent [OF assms, of m] that e(1) by simp
  have fin: "sent q = ?spec" if "\<forall>m. r \<noteq> BlockedSending m"
    using readLoop_sent [OF assms] that e(1) by simp
  have pre: "prefix (sent q) ?spec"
  proof (cases "\<exists>m. r = BlockedSending m")
    case True
    then obtain m where "r = BlockedSending m" by blast
    from blocked [OF this] have "prefix (sent q @ [m]) ?spec" by simp
    then show ?thesis by (rule append_prefixD)
  next
    case False
    with fin show ?thesis by simp
  qed
  have c3: "\<forall>m. r = BlockedSending m \<longrightarrow>
           length (buffered q) = chan_capacity \<and> prefix (sent q @ [m]) ?spec"
    using blocked cap by auto
  have few: "sent q = ?spec" if l: "length ?spec \<le> chan_capacity"
  proof (rule fin, rule allI, rule notI)
    fix m assume "r = BlockedSending m"
    from blocked [OF this] have b: "chan_capacity \<le> length (buffered q)"
      and p: "prefix (sent q @ [m]) ?spec" by simp_all
    from p have "length (sent q @ [m]) \<le> length ?spec" by (rule prefix_length_le)
    moreover have "length (buffered q) \<le> length (sent q)" by (simp add: sent_def)
    ultimately show False using b l by simp
  qed
  have recv: "sent q = ?spec"
    if "list_all (\<lambda>n. 0 < n) takes \<and> length ?spec \<le> length takes"
  proof (rule fin, rule allI)
    fix m
    from that readLoop_receivers [of takes decode reads empty_chan m] e(2) assms
    show "r \<noteq> BlockedSending m" by simp
  qed
  show ?thesis using pre cap c3 fin few recv by blast
qed

text \<open>An empty line, a malformed line, two messages and a read error with no receiver;
  seventeen messages with a receiver that takes one message before each send.\<close>

theorem readLoop_delivers_witness:
  "readLoop sample_decode
     [ReadOk (''  '' @ [CHR 0x0A]), ReadOk (''not json'' @ [CHR 0x0A]),
      ReadOk (CHR '' '' # CHR 0x09 # sample_line @ [CHR 0x0D, CHR 0x0A]), ReadOk sample_line,
      ReadErr ''{''] [] empty_chan
     = (Returned, \<lparr>received = [], buffered = [response ''3'' ''7'', response ''3'' ''7'']\<rparr>)
   \<and> delivered_spec sample_decode
       (lines_read
         [ReadOk (''  '' @ [CHR 0x0A]), ReadOk (''not json'' @ [CHR 0x0A]),
          ReadOk (CHR '' '' # CHR 0x09 # sample_line @ [CHR 0x0D, CHR 0x0A]), ReadOk sample_line,
          ReadErr ''{''])
     = [response ''3'' ''7'', response ''3'' ''7'']
   \<and> sent (snd (readLoop sample_decode (replicate 17 (ReadOk sample_line)) (replicate 17 1) empty_chan))
     = delivered_spec sample_decode (lines_read (replicate 17 (ReadOk sample_line)))"
proof -
  let ?reads = "[ReadOk (''  '' @ [CHR 0x0A]), ReadOk (''not json'' @ [CHR 0x0A]),
      ReadOk (CHR '' '' # CHR 0x09 # sample_line @ [CHR 0x0D, CHR 0x0A]), ReadOk sample_line,
      ReadErr ''{'']"
  let ?q = "\<lparr>received = [], buffered = [response ''3'' ''7'', response ''3'' ''7'']\<rparr>"
  have run: "readLoop sample_decode ?reads [] empty_chan = (Returned, ?q)"
    by code_simp
  have s: "sent ?q = [response ''3'' ''7'', response ''3'' ''7'']"
    by (simp add: sent_def)
  have a: "delivered_spec sample_decode (lines_read ?reads) = [response ''3'' ''7'', response ''3'' ''7'']"
    using readLoop_delivers [OF run] s by simp
  let ?many = "replicate 17 (ReadOk sample_line)"
  obtain r q where many: "readLoop sample_decode ?many (replicate 17 1) empty_chan = (r, q)"
    by (cases "readLoop sample_decode ?many (replicate 17 1) empty_chan")
  have t: "list_all (\<lambda>n. 0 < n) (replicate 17 (1::nat))" by (simp add: list_all_iff)
  have l: "length (delivered_spec sample_decode (lines_read ?many)) \<le> length (replicate 17 (1::nat))"
    by code_simp
  have b: "sent q = delivered_spec sample_decode (lines_read ?many)"
    using readLoop_delivers [OF many] t l by blast
  show ?thesis using run a b many by simp
qed

subsection \<open>Identifiers\<close>

lemma utoa_not_empty: "utoa n \<noteq> []"
  by (subst utoa.simps) simp

lemma Sprintf_d_not_empty: "Sprintf_d i \<noteq> []"
  by (simp add: Sprintf_d_def utoa_not_empty)

text \<open>An identifier matches exactly when it decodes as the integer or as its decimal text.\<close>

lemma idMatches_iff:
  "idMatches P raw id' \<longleftrightarrow>
     Unmarshal (into P int_target) raw = Some id' \<or>
     Unmarshal (into P string_target) raw = Some (Sprintf_d id')"
proof (cases "raw = []")
  case True
  then show ?thesis by (simp add: idMatches_def Unmarshal_def)
next
  case False
  show ?thesis
  proof (cases "P raw")
    case None
    then show ?thesis using False by (simp add: idMatches_def Unmarshal_def into_def)
  next
    case (Some v)
    have ne: "Sprintf_d id' \<noteq> []" by (rule Sprintf_d_not_empty)
    show ?thesis
    proof (cases v)
      case JNull
      then show ?thesis using False Some ne by (auto simp: idMatches_def Unmarshal_def into_def)
    next
      case (JNumber lit)
      then show ?thesis using False Some
        by (auto simp: idMatches_def Unmarshal_def into_def split: option.splits)
    next
      case (JString s)
      then show ?thesis using False Some by (auto simp: idMatches_def Unmarshal_def into_def)
    qed (use False Some in \<open>auto simp: idMatches_def Unmarshal_def into_def\<close>)
  qed
qed

subsection \<open>Waiting for a response\<close>

lemma awaitResponse_skip:
  "list_all (passed_over P id') pre \<Longrightarrow>
   awaitResponse P id' out (pre @ evs) = awaitResponse P id' out evs"
proof (induction pre)
  case Nil
  show ?case by simp
next
  case (Cons ev pre)
  then show ?case by (cases ev) (simp_all add: passed_over_def)
qed

lemma sendRequest_waits:
  assumes "marshal E (GoMap [(''id'', GoInt id'), (''method'', GoString method), (''params'', params)]) = Some payload"
    and "fst (stdinWrite E c (payload @ [CHR 0x0A])) = None"
  shows "fst (sendRequest E c ctx id' method params out) = awaitResponse (parse E) id' out (selected E ctx)"
  using assms by (auto simp: sendRequest_def Let_def split: prod.splits option.splits)

lemma sendRequest_at:
  assumes "marshal E (GoMap [(''id'', GoInt id'), (''method'', GoString method), (''params'', params)]) = Some payload"
    and "fst (stdinWrite E c (payload @ [CHR 0x0A])) = None"
    and "selected E ctx = pre @ evs"
    and "list_all (passed_over (parse E) id') pre"
  shows "fst (sendRequest E c ctx id' method params out) = awaitResponse (parse E) id' out evs"
  by (simp add: sendRequest_waits [OF assms(1,2)] assms(3) awaitResponse_skip [OF assms(4)])

lemma sample_sent:
  "marshal (waiting_env evs) v = Some (encode v)"
  "fst (stdinWrite (waiting_env evs) started_client d) = None"
  "selected (waiting_env evs) ctx = evs"
  "parse (waiting_env evs) = sample_parse"
  by (simp_all add: waiting_env_def sample_env_def stdinWrite_def started_client_def)

text \<open>
  Claim C1, as stated, fails: a message without error descriptor whose identifier is the
  awaited integer, with the result \<^verbatim>\<open>7\<close>, makes \<^verbatim>\<open>sendRequest\<close> return a parse error
  when the output slot is a Go string.
\<close>

theorem sendRequest_success_counterexample:
  "Error (response ''1'' ''7'') = None
   \<and> Unmarshal (into (parse (waiting_env [Recv (response ''1'' ''7'')])) int_target)
         (ID (response ''1'' ''7'')) = Some 1
   \<and> fst (sendRequest (waiting_env [Recv (response ''1'' ''7'')]) started_client Background 1
         ''account/rateLimits/read'' GoNil (Some string_target))
       = Returns (Inl (Wrapf ''codex app-server parse: '' JSONError))"
  by code_simp

text \<open>
  Claim C1, amended. Once the request is written, when a message whose error descriptor is
  absent is received (every earlier select having been passed over) and its identifier
  decodes as the integer \<open>id\<close> or as the decimal text of \<open>id\<close>, \<^verbatim>\<open>sendRequest\<close> ends the
  wait at this message: it returns success when no output slot was given, success with the
  decoded value in the slot when the result decodes into it, and a parse error when the
  result does not decode. Both encodings of the identifier are accepted.
\<close>

theorem sendRequest_accepts_matching_id:
  assumes sent: "marshal E (GoMap [(''id'', GoInt id'), (''method'', GoString method), (''params'', params)]) = Some payload"
      "fst (stdinWrite E c (payload @ [CHR 0x0A])) = None"
    and evs: "selected E ctx = pre @ Recv msg # rest"
    and pre: "list_all (passed_over (parse E) id') pre"
    and noerr: "Error msg = None"
    and ident: "Unmarshal (into (parse E) int_target) (ID msg) = Some id' \<or>
                Unmarshal (into (parse E) string_target) (ID msg) = Some (Sprintf_d id')"
  shows "fst (sendRequest E c ctx id' method params out) =
           (case out of
              None \<Rightarrow> Returns (Inr None)
            | Some target \<Rightarrow>
                (case Unmarshal (into (parse E) target) (Result msg) of
                   Some v \<Rightarrow> Returns (Inr (Some v))
                 | None \<Rightarrow> Returns (Inl (Wrapf ''codex app-server parse: '' JSONError))))"
proof -
  have m: "idMatches (parse E) (ID msg) id'" using ident by (simp add: idMatches_iff)
  have "fst (sendRequest E c ctx id' method params out) =
        awaitResponse (parse E) id' out (Recv msg # rest)"
    by (rule sendRequest_at [OF sent evs pre])
  then show ?thesis using noerr m by (simp split: option.splits)
qed

text \<open>The identifier as a string after a message for another request; a result that
  does not decode into the slot.\<close>

theorem sendRequest_accepts_matching_id_witness:
  "fst (sendRequest (waiting_env [Recv (response ''2'' ''7''), Recv (response (quote ''1'') ''7'')])
         started_client Background 1 ''account/rateLimits/read'' GoNil (Some int_target))
     = Returns (Inr (Some 7))
   \<and> fst (sendRequest (waiting_env [Recv (response ''1'' ''x'')])
         started_client Background 1 ''account/rateLimits/read'' GoNil (Some int_target))
     = Returns (Inl (Wrapf ''codex app-server parse: '' JSONError))"
proof -
  let ?E = "waiting_env [Recv (response ''2'' ''7''), Recv (response (quote ''1'') ''7'')]"
  have evs: "selected ?E Background = [Recv (response ''2'' ''7'')] @ Recv (response (quote ''1'') ''7'') # []"
    by (simp add: sample_sent)
  have pre: "list_all (passed_over (parse ?E) 1) [Recv (response ''2'' ''7'')]"
    unfolding sample_sent by code_simp
  have noerr: "Error (response (quote ''1'') ''7'') = None" by (simp add: response_def)
  have ident: "Unmarshal (into (parse ?E) int_target) (ID (response (quote ''1'') ''7'')) = Some 1 \<or>
       Unmarshal (into (parse ?E) string_target) (ID (response (quote ''1'') ''7'')) = Some (Sprintf_d 1)"
    unfolding sample_sent by code_simp
  have res: "Unmarshal (into (parse ?E) int_target) (Result (response (quote ''1'') ''7'')) = Some 7"
    unfolding sample_sent by code_simp
  have a: "fst (sendRequest ?E started_client Background 1 ''account/rateLimits/read'' GoNil (Some int_target))
     = Returns (Inr (Some 7))"
    using sendRequest_accepts_matching_id [where out = "Some int_target", OF sample_sent(1) sample_sent(2) evs pre noerr ident] res
    by simp
  let ?F = "waiting_env [Recv (response ''1'' ''x'')]"
  have evs': "selected ?F Background = [] @ Recv (response ''1'' ''x'') # []"
    by (simp add: sample_sent)
  have noerr': "Error (response ''1'' ''x'') = None" by (simp add: response_def)
  have ident': "Unmarshal (into (parse ?F) int_target) (ID (response ''1'' ''x'')) = Some 1 \<or>
       Unmarshal (into (parse ?F) string_target) (ID (response ''1'' ''x'')) = Some (Sprintf_d 1)"
    unfolding sample_sent by code_simp
  have res': "Unmarshal (into (parse ?F) int_target) (Result (response ''1'' ''x'')) = None"
    unfolding sample_sent by code_simp
  have b: "fst (sendRequest ?F started_client Background 1 ''account/rateLimits/read'' GoNil (Some int_target))
     = Returns (Inl (Wrapf ''codex app-server parse: '' JSONError))"
    using sendRequest_accepts_matching_id [where out = "Some int_target", OF sample_sent(1) sample_sent(2) evs' _ noerr' ident'] res'
    by simp
  show ?thesis using a b by simp
qed

text \<open>
  Claim C2. Once the request is written, a received message with an error descriptor,
  whatever its identifier, makes \<^verbatim>\<open>sendRequest\<close> return an error: \<^verbatim>\<open>errNotInitialized\<close>
  when the descriptor's text is exactly \<^verbatim>\<open>Not initialized\<close>, else an error whose text
  carries the descriptor's text verbatim.
\<close>

theorem sendRequest_error_descriptor:
  assumes sent: "marshal E (GoMap [(''id'', GoInt id'), (''method'', GoString method), (''params'', params)]) = Some payload"
      "fst (stdinWrite E c (payload @ [CHR 0x0A])) = None"
    and evs: "selected E ctx = pre @ Recv msg # rest"
    and pre: "list_all (passed_over (parse E) id') pre"
    and err: "Error msg = Some e"
  shows "fst (sendRequest E c ctx id' method params out) =
           Returns (Inl (if Message e = ''Not initialized'' then errNotInitialized
                         else Errorf (''codex app-server error: '' @ Message e)))"
proof -
  have "fst (sendRequest E c ctx id' method params out) =
        awaitResponse (parse E) id' out (Recv msg # rest)"
    by (rule sendRequest_at [OF sent evs pre])
  then show ?thesis using err by simp
qed

text \<open>The exact text under another identifier, and the same text in lower case.\<close>

theorem sendRequest_error_descriptor_witness:
  "fst (sendRequest (waiting_env [Recv (response ''2'' ''7''), Recv (failure ''9'' ''Not initialized'')])
         started_client Background 1 ''account/rateLimits/read'' GoNil (Some int_target))
     = Returns (Inl errNotInitialized)
   \<and> fst (sendRequest (waiting_env [Recv (failure ''1'' ''not initialized'')])
         started_client Background 1 ''account/rateLimits/read'' GoNil (Some int_target))
     = Returns (Inl (Errorf ''codex app-server error: not initialized''))"
proof -
  let ?E = "waiting_env [Recv (response ''2'' ''7''), Recv (failure ''9'' ''Not initialized'')]"
  have evs: "selected ?E Background = [Recv (response ''2'' ''7'')] @ Recv (failure ''9'' ''Not initialized'') # []"
    by (simp add: sample_sent)
  have pre: "list_all (passed_over (parse ?E) 1) [Recv (response ''2'' ''7'')]"
    unfolding sample_sent by code_simp
  have err: "Error (failure ''9'' ''Not initialized'') = Some \<lparr>Code = - 1, Message = ''Not initialized''\<rparr>"
    by (simp add: failure_def)
  have a: "fst (sendRequest ?E started_client Background 1 ''account/rateLimits/read'' GoNil (Some int_target))
     = Returns (Inl errNotInitialized)"
    using sendRequest_error_descriptor [where out = "Some int_target", OF sample_sent(1) sample_sent(2) evs pre err]
    by simp
  let ?F = "waiting_env [Recv (failure ''1'' ''not initialized'')]"
  have evs': "selected ?F Background = [] @ Recv (failure ''1'' ''not initialized'') # []"
    by (simp add: sample_sent)
  have err': "Error (failure ''1'' ''not initialized'') = Some \<lparr>Code = - 1, Message = ''not initialized''\<rparr>"
    by (simp add: failure_def)
  have b: "fst (sendRequest ?F started_client Background 1 ''account/rateLimits/read'' GoNil (Some int_target))
     = Returns (Inl (Errorf ''codex app-server error: not initialized''))"
    using sendRequest_error_descriptor [where out = "Some int_target", OF sample_sent(1) sample_sent(2) evs' _ err']
    by simp
  show ?thesis using a b by simp
qed

lemma pending_elapse: "pending (elapse k w) = pending w"
  by (induction k w rule: elapse.induct) simp_all

lemma token_queue: "token (queue, fired, occs) = token (queue', fired, occs)"
  by (cases fired) simp_all

lemma token_Arrived: "token (queue, fired, Arrived msg # occs) = token (queue, fired, occs)"
  by (cases fired) simp_all

lemma token_Fired:
  "token (queue, fired, Fired err # occs) =
     token (queue, (case fired of None \<Rightarrow> Some err | Some e \<Rightarrow> Some e), occs)"
  by (cases fired) simp_all

lemma token_elapse: "token (elapse k w) = token w"
proof (induction k w rule: elapse.induct)
  case (3 k queue fired msg occs)
  then show ?case using token_queue [of "queue @ [msg]" fired occs queue] by (simp add: token_Arrived)
next
  case (4 k queue fired err occs)
  then show ?case by (simp add: token_Fired)
qed simp_all

text \<open>The selects that complete are receives of the pending messages, in order, up to
  the select that chooses the token; without a token every pending message is received.\<close>

lemma shape_recv:
  assumes "elapse (delay sch n) w = (msg # queue, fired, occs)"
    and "selects sch n w = Recv msg # selects sch (Suc n) (queue, fired, occs)"
    and "shape sch (Suc n) (queue, fired, occs) ms"
  shows "shape sch n w (msg # ms)"
proof -
  have p: "pending w = msg # queue @ arrivals occs"
    using pending_elapse [of "delay sch n" w] assms(1) by simp
  have t: "token w = token (queue, fired, occs)"
    using token_elapse [of "delay sch n" w] assms(1) token_queue [of "msg # queue" fired occs queue] by simp
  show ?thesis using assms(2,3) p t by (simp add: shape_def)
qed

lemma shape_wake:
  assumes "elapse (delay sch n) w = ([], None, Arrived msg # occs)"
    and "selects sch n w = Recv msg # selects sch (Suc n) ([], None, occs)"
    and "shape sch (Suc n) ([], None, occs) ms"
  shows "shape sch n w (msg # ms)"
proof -
  have p: "pending w = msg # arrivals occs"
    using pending_elapse [of "delay sch n" w] assms(1) by simp
  have t: "token w = token ([], None, occs)"
    using token_elapse [of "delay sch n" w] assms(1) by simp
  show ?thesis using assms(2,3) p t by (simp add: shape_def)
qed

lemma shape_done:
  assumes "elapse (delay sch n) w = w'" and "token w' = Some err"
    and "selects sch n w = [CtxDone err]"
  shows "shape sch n w []"
proof -
  have t: "token w = Some err"
    using token_elapse [of "delay sch n" w] assms(1,2) by simp
  show ?thesis using assms(3) t by (simp add: shape_def)
qed

lemma shape_blocked:
  assumes "elapse (delay sch n) w = ([], None, [])" and "selects sch n w = []"
  shows "shape sch n w []"
proof -
  have p: "pending w = []"
    using pending_elapse [of "delay sch n" w] assms(1) by simp
  have t: "token w = None"
    using token_elapse [of "delay sch n" w] assms(1) by simp
  show ?thesis using assms(2) p t by (simp add: shape_def)
qed

text \<open>The selects that complete are receives of the pending messages, in order, up to
  the select that chooses the token; without a token every pending message is received.\<close>

lemma selects_shape: "\<exists>ms. shape sch n w ms"
proof (induction sch n w rule: selects.induct)
  case (1 sch n w)
  obtain queue fired occs where e: "elapse (delay sch n) w = (queue, fired, occs)"
    by (cases "elapse (delay sch n) w")
  show ?case
  proof (cases queue)
    case (Cons msg queue')
    show ?thesis
    proof (cases fired)
      case None
      from "1.IH"(2) [OF e [symmetric] Cons refl None] obtain ms where
        ms: "shape sch (Suc n) (queue', None, occs) ms" ..
      have s: "selects sch n w = Recv msg # selects sch (Suc n) (queue', None, occs)"
        using e Cons None by (subst selects.simps) simp
      from shape_recv [OF e [unfolded Cons None] s ms] show ?thesis ..
    next
      case (Some err)
      show ?thesis
      proof (cases "prefer_recv sch n")
        case True
        from "1.IH"(3) [OF e [symmetric] Cons refl Some True] obtain ms where
          ms: "shape sch (Suc n) (queue', Some err, occs) ms" ..
        have s: "selects sch n w = Recv msg # selects sch (Suc n) (queue', Some err, occs)"
          using e Cons Some True by (subst selects.simps) simp
        from shape_recv [OF e [unfolded Cons Some] s ms] show ?thesis ..
      next
        case False
        have s: "selects sch n w = [CtxDone err]"
          using e Cons Some False by (subst selects.simps) simp
        have "token (queue, fired, occs) = Some err" using Some by simp
        from shape_done [OF e this s] show ?thesis ..
      qed
    qed
  next
    case Nil
    show ?thesis
    proof (cases fired)
      case (Some err)
      have s: "selects sch n w = [CtxDone err]"
        using e Nil Some by (subst selects.simps) simp
      have "token (queue, fired, occs) = Some err" using Some by simp
      from shape_done [OF e this s] show ?thesis ..
    next
      case None
      show ?thesis
      proof (cases occs)
        case Nil': Nil
        have s: "selects sch n w = []"
          using e Nil None Nil' by (subst selects.simps) simp
        from shape_blocked [OF e [unfolded Nil None Nil'] s] show ?thesis ..
      next
        case (Cons occ occs')
        show ?thesis
        proof (cases occ)
          case (Fired err)
          have s: "selects sch n w = [CtxDone err]"
            using e Nil None Cons Fired by (subst selects.simps) simp
          have "token (queue, fired, occs) = Some err" using None Cons Fired by simp
          from shape_done [OF e this s] show ?thesis ..
        next
          case (Arrived msg)
          from "1.IH"(1) [OF e [symmetric] Nil refl None Cons Arrived] obtain ms where
            ms: "shape sch (Suc n) ([], None, occs') ms" ..
          have s: "selects sch n w = Recv msg # selects sch (Suc n) ([], None, occs')"
            using e Nil None Cons Arrived by (subst selects.simps) simp
          from shape_wake [OF e [unfolded Nil None Cons Arrived] s ms] show ?thesis ..
        qed
      qed
    qed
  qed
qed


lemma first_fired_append:
  "first_fired (occs @ later) = (case first_fired occs of Some err \<Rightarrow> Some err | None \<Rightarrow> first_fired later)"
  by (induction occs rule: first_fired.induct) simp_all

lemma arrivals_append: "arrivals (occs @ later) = arrivals occs @ arrivals later"
  by (induction occs rule: arrivals.induct) simp_all

lemma arrivals_timeline: "arrivals (timeline ctx occs) = arrivals occs"
  by (simp add: timeline_def arrivals_append)

lemma first_fired_timeline:
  "has_deadline ctx \<or> first_fired occs \<noteq> None \<Longrightarrow> first_fired (timeline ctx occs) \<noteq> None"
  by (auto simp: timeline_def first_fired_append)

lemma awaitResponse_returns:
  "\<exists>r. awaitResponse P id' out (map Recv ms @ CtxDone err # rest) = Returns r"
proof (induction ms)
  case Nil
  show ?case by simp
next
  case (Cons m ms)
  then show ?case by (auto split: option.splits)
qed

lemma awaitResponse_token:
  assumes "list_all (\<lambda>m. passed_over P id' (Recv m)) ms"
  shows "awaitResponse P id' out (map Recv ms @ CtxDone err # rest) = Returns (Inl err)"
proof -
  have h: "list_all (passed_over P id') (map Recv ms)"
    using assms by (simp add: list_all_iff)
  show ?thesis by (simp add: awaitResponse_skip [OF h])
qed

text \<open>A call that is waiting in the select whenever something happens receives the
  messages as they arrive and chooses the token when it fires.\<close>

lemma selects_prompt:
  assumes "\<forall>n. delay sch n = 0"
  shows "selects sch n ([], None, map Arrived ms @ Fired err # rest) = map Recv ms @ [CtxDone err]"
proof (induction ms arbitrary: n)
  case Nil
  show ?case using assms by (subst selects.simps) simp
next
  case (Cons m ms)
  have "selects sch n ([], None, map Arrived (m # ms) @ Fired err # rest) =
      Recv m # selects sch (Suc n) ([], None, map Arrived ms @ Fired err # rest)"
    using assms by (subst selects.simps) simp
  then show ?case using Cons.IH by simp
qed

text \<open>
  Claim C4, as stated, fails. The token fires, then the response arrives, both before the
  first \<^verbatim>\<open>select\<close> runs: the \<^verbatim>\<open>select\<close> finds both cases ready, may take the receive, and
  \<^verbatim>\<open>sendRequest\<close> returns success. And when the write of the request fails,
  \<^verbatim>\<open>sendRequest\<close> returns the error of the write, whatever the token did.
\<close>

theorem sendRequest_cancelled_counterexample:
  "first_fired (timeline (WithTimeout Background appServerRequestTimeout)
       [Fired DeadlineExceeded, Arrived (response ''1'' ''7'')]) = Some DeadlineExceeded
   \<and> selects late 0 ([], None, timeline (WithTimeout Background appServerRequestTimeout)
       [Fired DeadlineExceeded, Arrived (response ''1'' ''7'')])
       = [Recv (response ''1'' ''7''), CtxDone DeadlineExceeded]
   \<and> fst (sendRequest
         (waiting_env (selects late 0 ([], None, timeline (WithTimeout Background appServerRequestTimeout)
            [Fired DeadlineExceeded, Arrived (response ''1'' ''7'')])))
         started_client (WithTimeout Background appServerRequestTimeout) 1
         ''account/rateLimits/read'' GoNil (Some int_target))
       = Returns (Inr (Some 7))
   \<and> fst (sendRequest
         (failing_write_env (selects prompt 0 ([], None, timeline (WithTimeout Background appServerRequestTimeout)
            [Fired DeadlineExceeded])))
         started_client (WithTimeout Background appServerRequestTimeout) 1
         ''account/rateLimits/read'' GoNil (Some int_target))
       = Returns (Inl (OSError ''broken pipe''))"
  by code_simp

text \<open>
  Claim C4, amended. Once the request is written, with the selects of the wait being those
  the occurrences and the scheduling give: under a context with a deadline, or whenever
  the token fires, \<^verbatim>\<open>sendRequest\<close> does not block, it returns. It returns the token's error
  when the token fires before any message with the awaited identifier or with an error
  descriptor has arrived and the call is in the \<^verbatim>\<open>select\<close> whenever something happens;
  whatever the scheduling, when no such message arrives at all; and in general whenever a
  \<^verbatim>\<open>select\<close> takes the token before such a message was received.
\<close>

theorem sendRequest_cancelled:
  assumes sent: "marshal E (GoMap [(''id'', GoInt id'), (''method'', GoString method), (''params'', params)]) = Some payload"
      "fst (stdinWrite E c (payload @ [CHR 0x0A])) = None"
    and sel: "selected E ctx = selects sch 0 ([], None, timeline ctx occs)"
  shows "(has_deadline ctx \<or> first_fired occs \<noteq> None \<longrightarrow>
            (\<exists>r. fst (sendRequest E c ctx id' method params out) = Returns r))
     \<and> (timeline ctx occs = map Arrived ms @ Fired err # rest \<and>
         list_all (\<lambda>m. passed_over (parse E) id' (Recv m)) ms \<and> (\<forall>n. delay sch n = 0) \<longrightarrow>
            fst (sendRequest E c ctx id' method params out) = Returns (Inl err))
     \<and> (first_fired (timeline ctx occs) = Some err \<and>
         list_all (\<lambda>m. passed_over (parse E) id' (Recv m)) (arrivals occs) \<longrightarrow>
            fst (sendRequest E c ctx id' method params out) = Returns (Inl err))
     \<and> (selected E ctx = pre @ CtxDone err # more_evs \<and> list_all (passed_over (parse E) id') pre \<longrightarrow>
            fst (sendRequest E c ctx id' method params out) = Returns (Inl err))"
proof -
  let ?w = "([], None, timeline ctx occs)"
  have res: "fst (sendRequest E c ctx id' method params out) =
      awaitResponse (parse E) id' out (selects sch 0 ?w)"
    by (simp add: sendRequest_waits [OF sent] sel)
  from selects_shape [of sch 0 ?w] obtain rs where "shape sch 0 ?w rs" ..
  then have pre: "prefix rs (arrivals occs)"
    and evs: "selects sch 0 ?w =
        map Recv rs @ (case first_fired (timeline ctx occs) of Some e \<Rightarrow> [CtxDone e] | None \<Rightarrow> [])"
    by (simp_all add: shape_def arrivals_timeline)
  have a: "\<exists>r. fst (sendRequest E c ctx id' method params out) = Returns r"
    if "has_deadline ctx \<or> first_fired occs \<noteq> None"
  proof -
    from first_fired_timeline [OF that] obtain e where "first_fired (timeline ctx occs) = Some e"
      by auto
    with evs have "selects sch 0 ?w = map Recv rs @ CtxDone e # []" by simp
    then show ?thesis using awaitResponse_returns [of "parse E" id' out rs e "[]"] res by simp
  qed
  have b: "fst (sendRequest E c ctx id' method params out) = Returns (Inl err)"
    if "timeline ctx occs = map Arrived ms @ Fired err # rest \<and>
        list_all (\<lambda>m. passed_over (parse E) id' (Recv m)) ms \<and> (\<forall>n. delay sch n = 0)"
  proof -
    from that have "selects sch 0 ?w = map Recv ms @ CtxDone err # []"
      using selects_prompt [of sch 0 ms err rest] by simp
    moreover from that have "list_all (\<lambda>m. passed_over (parse E) id' (Recv m)) ms" by simp
    ultimately show ?thesis using res by (simp add: awaitResponse_token)
  qed
  have c: "fst (sendRequest E c ctx id' method params out) = Returns (Inl err)"
    if "first_fired (timeline ctx occs) = Some err \<and>
        list_all (\<lambda>m. passed_over (parse E) id' (Recv m)) (arrivals occs)"
  proof -
    from that evs have e: "selects sch 0 ?w = map Recv rs @ CtxDone err # []" by simp
    from pre have "set rs \<subseteq> set (arrivals occs)" by (rule set_mono_prefix)
    with that have "list_all (\<lambda>m. passed_over (parse E) id' (Recv m)) rs"
      by (auto simp: list_all_iff)
    then show ?thesis using e res by (simp add: awaitResponse_token)
  qed
  have d: "fst (sendRequest E c ctx id' method params out) = Returns (Inl err)"
    if "selected E ctx = pre @ CtxDone err # more_evs \<and> list_all (passed_over (parse E) id') pre"
  proof -
    from that have "fst (sendRequest E c ctx id' method params out) =
        awaitResponse (parse E) id' out (CtxDone err # more_evs)"
      using sendRequest_at [OF sent, of ctx pre "CtxDone err # more_evs" out] by simp
    then show ?thesis by simp
  qed
  show ?thesis using a b c d by blast
qed

text \<open>The parent is cancelled after a message for another request, the call waiting in
  the select; and a late call to which only a message for another request arrives before
  the deadline.\<close>

theorem sendRequest_cancelled_witness:
  "fst (sendRequest
      (waiting_env (selects prompt 0 ([], None, timeline (WithTimeout Background appServerRequestTimeout)
         [Arrived (response ''2'' ''7''), Fired Canceled, Arrived (response ''1'' ''7'')])))
      started_client (WithTimeout Background appServerRequestTimeout) 1
      ''account/rateLimits/read'' GoNil (Some int_target))
     = Returns (Inl Canceled)
   \<and> fst (sendRequest
      (waiting_env (selects late 0 ([], None, timeline (WithTimeout Background appServerRequestTimeout)
         [Arrived (response ''2'' ''7'')])))
      started_client (WithTimeout Background appServerRequestTimeout) 1
      ''account/rateLimits/read'' GoNil (Some int_target))
     = Returns (Inl DeadlineExceeded)"
proof -
  let ?ctx = "WithTimeout Background appServerRequestTimeout"
  let ?occs = "[Arrived (response ''2'' ''7''), Fired Canceled, Arrived (response ''1'' ''7'')]"
  let ?E = "waiting_env (selects prompt 0 ([], None, timeline ?ctx ?occs))"
  have sel: "selected ?E ?ctx = selects prompt 0 ([], None, timeline ?ctx ?occs)"
    by (simp add: sample_sent)
  have tl: "timeline ?ctx ?occs = map Arrived [response ''2'' ''7''] @ Fired Canceled # [Arrived (response ''1'' ''7'')]"
    by (simp add: timeline_def)
  have sk: "list_all (\<lambda>m. passed_over (parse ?E) 1 (Recv m)) [response ''2'' ''7'']"
    unfolding sample_sent by code_simp
  have pr: "\<forall>n. delay prompt n = 0" by (simp add: prompt_def)
  have a: "fst (sendRequest ?E started_client ?ctx 1 ''account/rateLimits/read'' GoNil (Some int_target))
      = Returns (Inl Canceled)"
    using sendRequest_cancelled [where out = "Some int_target" and ms = "[response ''2'' ''7'']"
        and err = Canceled and rest = "[Arrived (response ''1'' ''7'')]",
        OF sample_sent(1) sample_sent(2) sel] tl sk pr
    by blast
  let ?occs' = "[Arrived (response ''2'' ''7'')]"
  let ?F = "waiting_env (selects late 0 ([], None, timeline ?ctx ?occs'))"
  have sel': "selected ?F ?ctx = selects late 0 ([], None, timeline ?ctx ?occs')"
    by (simp add: sample_sent)
  have ff: "first_fired (timeline ?ctx ?occs') = Some DeadlineExceeded"
    by (simp add: timeline_def)
  have sk': "list_all (\<lambda>m. passed_over (parse ?F) 1 (Recv m)) (arrivals ?occs')"
    unfolding sample_sent by code_simp
  have b: "fst (sendRequest ?F started_client ?ctx 1 ''account/rateLimits/read'' GoNil (Some int_target))
      = Returns (Inl DeadlineExceeded)"
    using sendRequest_cancelled [where out = "Some int_target" and err = DeadlineExceeded,
        OF sample_sent(1) sample_sent(2) sel'] ff sk'
    by blast
  show ?thesis using a b by simp
qed



text \<open>
  Claim C10. Once the request is written, a received message with the awaited identifier,
  no error descriptor and no result is not skipped: without an output slot
  \<^verbatim>\<open>sendRequest\<close> returns success, with one it returns the parse error of decoding the
  absent result.
\<close>

theorem sendRequest_absent_result:
  assumes sent: "marshal E (GoMap [(''id'', GoInt id'), (''method'', GoString method), (''params'', params)]) = Some payload"
      "fst (stdinWrite E c (payload @ [CHR 0x0A])) = None"
    and evs: "selected E ctx = pre @ Recv msg # rest"
    and pre: "list_all (passed_over (parse E) id') pre"
    and noerr: "Error msg = None"
    and nores: "Result msg = []"
    and ident: "idMatches (parse E) (ID msg) id'"
  shows "fst (sendRequest E c ctx id' method params (None :: (jvalue \<Rightarrow> 'a option) option)) = Returns (Inr None)
       \<and> fst (sendRequest E c ctx id' method params (Some (target :: jvalue \<Rightarrow> 'a option))) =
           Returns (Inl (Wrapf ''codex app-server parse: '' JSONError))"
proof -
  have w: "fst (sendRequest E c ctx id' method params out) =
        awaitResponse (parse E) id' out (Recv msg # rest)" for out :: "(jvalue \<Rightarrow> 'a option) option"
    by (rule sendRequest_at [OF sent evs pre])
  have d: "Unmarshal (into (parse E) target) (Result msg) = None"
    using nores by (simp add: Unmarshal_def)
  show ?thesis using w noerr ident d by simp
qed

text \<open>A response to request 1 that has no result field.\<close>

theorem sendRequest_absent_result_witness:
  "fst (sendRequest (waiting_env [Recv (response ''1'' [])]) started_client Background 1
         ''initialize'' GoNil (None :: (jvalue \<Rightarrow> int option) option))
     = Returns (Inr None)
   \<and> fst (sendRequest (waiting_env [Recv (response ''1'' [])]) started_client Background 1
         ''initialize'' GoNil (Some int_target))
     = Returns (Inl (Wrapf ''codex app-server parse: '' JSONError))"
proof -
  let ?E = "waiting_env [Recv (response ''1'' [])]"
  have evs: "selected ?E Background = [] @ Recv (response ''1'' []) # []"
    by (simp add: sample_sent)
  have noerr: "Error (response ''1'' []) = None" by (simp add: response_def)
  have nores: "Result (response ''1'' []) = []" by (simp add: response_def)
  have ident: "idMatches (parse ?E) (ID (response ''1'' [])) 1"
    unfolding sample_sent by code_simp
  show ?thesis
    using sendRequest_absent_result [where target = int_target, OF sample_sent(1) sample_sent(2) evs _ noerr nores ident]
    by simp
qed

subsection \<open>Teardown\<close>

lemma Close_returns:
  assumes "Process c = Some p"
  shows "fst (Close c) = Returns ()"
    and "calls (snd (Close c)) = calls c @ [StdinClose, StdoutClose, ProcessKill, ProcessWait]"
    and "Process (snd (Close c)) = Some Reaped"
    and "stdin_closed (snd (Close c))" and "stdout_closed (snd (Close c))"
    and "written (snd (Close c)) = written c"
  using assms by (cases p; simp add: Close_def Let_def stdinClose_def stdoutClose_def)+

text \<open>
  Claim C8. On a client whose child was started, \<^verbatim>\<open>Close\<close> returns, without panicking
  or blocking, after making the four calls in order: close the standard input, close the
  standard output, kill, wait. It returns nothing, so no error of a step reaches the
  caller, and an error of a step stops none of the later ones. A second \<^verbatim>\<open>Close\<close>, where
  every step fails, makes the four calls again and returns.
\<close>

theorem Close_attempts_every_step:
  assumes "Process c \<noteq> None"
  shows "fst (Close c) = Returns ()
    \<and> calls (snd (Close c)) = calls c @ [StdinClose, StdoutClose, ProcessKill, ProcessWait]
    \<and> fst (Close (snd (Close c))) = Returns ()
    \<and> calls (snd (Close (snd (Close c)))) =
        calls c @ [StdinClose, StdoutClose, ProcessKill, ProcessWait]
                @ [StdinClose, StdoutClose, ProcessKill, ProcessWait]"
proof -
  from assms obtain p where p: "Process c = Some p" by auto
  note first = Close_returns [OF p]
  note second = Close_returns [OF first(3)]
  show ?thesis using first(1,2) second(1,2) by simp
qed

text \<open>A client whose standard output is already closed: the second step fails, the
  third and the fourth are made all the same.\<close>

theorem Close_attempts_every_step_witness:
  "fst (stdoutClose (snd (stdinClose (started_client\<lparr>stdout_closed := True\<rparr>)))) = Some (OSError ''file already closed'')
   \<and> fst (Close (started_client\<lparr>stdout_closed := True\<rparr>)) = Returns ()
   \<and> calls (snd (Close (started_client\<lparr>stdout_closed := True\<rparr>))) =
        [StdinClose, StdoutClose, ProcessKill, ProcessWait]
   \<and> calls (snd (Close (snd (Close (started_client\<lparr>stdout_closed := True\<rparr>))))) =
        [StdinClose, StdoutClose, ProcessKill, ProcessWait, StdinClose, StdoutClose, ProcessKill, ProcessWait]"
proof -
  have p: "Process (started_client\<lparr>stdout_closed := True\<rparr>) \<noteq> None"
    by (simp add: started_client_def)
  have e: "fst (stdoutClose (snd (stdinClose (started_client\<lparr>stdout_closed := True\<rparr>)))) = Some (OSError ''file already closed'')"
    by (simp add: stdinClose_def stdoutClose_def started_client_def)
  have k: "calls (started_client\<lparr>stdout_closed := True\<rparr>) = []"
    by (simp add: started_client_def)
  show ?thesis using Close_attempts_every_step [OF p] e k by simp
qed

subsection \<open>Construction and handshake\<close>

lemma stdinWrite_frame:
  "Process (snd (stdinWrite E c d)) = Process c"
  "calls (snd (stdinWrite E c d)) = calls c"
  "stdin_closed (snd (stdinWrite E c d)) = stdin_closed c"
  "stdout_closed (snd (stdinWrite E c d)) = stdout_closed c"
  "written (snd (stdinWrite E c d)) = written c @ [(d, fst (stdinWrite E c d))]"
  by (simp_all add: stdinWrite_def Let_def)

lemma sendRequest_frame:
  "Process (snd (sendRequest E c ctx id' method params out)) = Process c"
  "calls (snd (sendRequest E c ctx id' method params out)) = calls c"
  "stdin_closed (snd (sendRequest E c ctx id' method params out)) = stdin_closed c"
  "stdout_closed (snd (sendRequest E c ctx id' method params out)) = stdout_closed c"
  by (simp_all add: sendRequest_def Let_def stdinWrite_def split: option.splits prod.splits)

lemma sendNotification_frame:
  "Process (snd (sendNotification E c method params)) = Process c"
  "calls (snd (sendNotification E c method params)) = calls c"
  "stdin_closed (snd (sendNotification E c method params)) = stdin_closed c"
  "stdout_closed (snd (sendNotification E c method params)) = stdout_closed c"
  by (simp_all add: sendNotification_def Let_def stdinWrite_def split: option.splits prod.splits)

lemma initialize_frame:
  "Process (snd (initialize E c ctx)) = Process c \<and> calls (snd (initialize E c ctx)) = calls c"
proof -
  obtain r c' where sr: "sendRequest E c (WithTimeout ctx appServerInitTimeout) 1 ''initialize''
      (GoMap [(''clientInfo'', GoMap [(''name'', GoString ''ccstats''), (''version'', GoString ''0.0.0'')])])
      (None :: (jvalue \<Rightarrow> unit option) option) = (r, c')"
    by (cases "sendRequest E c (WithTimeout ctx appServerInitTimeout) 1 ''initialize''
      (GoMap [(''clientInfo'', GoMap [(''name'', GoString ''ccstats''), (''version'', GoString ''0.0.0'')])])
      (None :: (jvalue \<Rightarrow> unit option) option)")
  have c': "Process c' = Process c \<and> calls c' = calls c"
    using sendRequest_frame(1,2) [of E c "WithTimeout ctx appServerInitTimeout" 1 "''initialize''" _ "None :: (jvalue \<Rightarrow> unit option) option"] sr
    by (metis snd_conv)
  obtain e c'' where sn: "sendNotification E c' ''initialized'' GoNil = (e, c'')"
    by (cases "sendNotification E c' ''initialized'' GoNil")
  have c'': "Process c'' = Process c' \<and> calls c'' = calls c'"
    using sendNotification_frame(1,2) [of E c' "''initialized''" GoNil] sn by simp
  show ?thesis
    using sr sn c' c''
    by (simp add: initialize_def Let_def split: outcome.splits sum.splits)
qed

lemma awaitResponse_no_slot:
  "awaitResponse P id' None evs = Returns (Inr v) \<Longrightarrow> v = None"
proof (induction evs)
  case Nil
  then show ?case by simp
next
  case (Cons ev evs)
  then show ?case by (cases ev) (auto split: option.splits if_splits)
qed

lemma initialize_started:
  assumes req: "marshal E (GoMap [(''id'', GoInt 1), (''method'', GoString ''initialize''),
        (''params'', GoMap [(''clientInfo'', GoMap [(''name'', GoString ''ccstats''), (''version'', GoString ''0.0.0'')])])]) = Some req"
    and nt: "marshal E (GoMap [(''method'', GoString ''initialized''), (''params'', GoNil)]) = Some note"
  shows "map fst (written (snd (initialize E started_client ctx))) =
     (if write_err E 0 = None \<and>
         awaitResponse (parse E) 1 (None :: (jvalue \<Rightarrow> unit option) option)
           (selected E (WithTimeout ctx appServerInitTimeout)) = Returns (Inr None)
      then [req @ [CHR 0x0A], note @ [CHR 0x0A]] else [req @ [CHR 0x0A]])"
proof (cases "write_err E 0")
  case (Some e)
  then show ?thesis
    using req by (simp add: initialize_def sendRequest_def stdinWrite_def started_client_def Let_def)
next
  case None
  let ?w = "awaitResponse (parse E) 1 (None :: (jvalue \<Rightarrow> unit option) option)
           (selected E (WithTimeout ctx appServerInitTimeout))"
  have sr: "sendRequest E started_client (WithTimeout ctx appServerInitTimeout) 1 ''initialize''
      (GoMap [(''clientInfo'', GoMap [(''name'', GoString ''ccstats''), (''version'', GoString ''0.0.0'')])])
      (None :: (jvalue \<Rightarrow> unit option) option) =
      (?w, started_client\<lparr>written := [(req @ [CHR 0x0A], None)]\<rparr>)"
    using req None by (simp add: sendRequest_def stdinWrite_def started_client_def Let_def)
  show ?thesis
  proof (cases ?w)
    case (Returns r)
    show ?thesis
    proof (cases r)
      case (Inl e)
      then show ?thesis using sr Returns None by (simp add: initialize_def Let_def)
    next
      case (Inr v)
      with Returns have "v = None" using awaitResponse_no_slot by blast
      then show ?thesis using sr Returns Inr None nt
        by (simp add: initialize_def Let_def sendNotification_def stdinWrite_def started_client_def split: prod.splits)
    qed
  next
    case Blocks
    then show ?thesis using sr None by (simp add: initialize_def Let_def)
  next
    case Panics
    then show ?thesis using sr None by (simp add: initialize_def Let_def)
  qed
qed

lemma newAppServerClient_built:
  assumes "stdinPipe_err E = None" "stdoutPipe_err E = None" "start_err E = None"
  shows "\<exists>c. snd (newAppServerClient E ctx) = Some c
           \<and> written c = written (snd (initialize E started_client ctx))
           \<and> Process c \<noteq> None"
proof -
  obtain r c' where i: "initialize E started_client ctx = (r, c')"
    by (cases "initialize E started_client ctx")
  have p: "Process c' = Some Running"
    using initialize_frame [of E started_client ctx] i by (simp add: started_client_def)
  note cl = Close_returns [OF p]
  obtain r2 c2 where c2: "Close c' = (r2, c2)" by (cases "Close c'")
  have r2: "r2 = Returns ()" and w2: "written c2 = written c'" and p2: "Process c2 = Some Reaped"
    using cl(1,6,3) c2 by simp_all
  show ?thesis
    using assms i p c2 r2 w2 p2
    by (simp add: newAppServerClient_def started_client_def [symmetric] split: outcome.splits option.splits)
qed

text \<open>
  Claim C6. When the pipes and the child were created and \<^verbatim>\<open>initialize\<close> returns an
  error, \<^verbatim>\<open>newAppServerClient\<close> returns no client and that same error, after the four
  teardown calls of \<^verbatim>\<open>Close\<close> were made on the child, which is then killed and waited for.
  Whatever it returns, exactly one of the client and the error is nil.
\<close>

theorem constructor_failed_handshake:
  "(stdinPipe_err E = None \<and> stdoutPipe_err E = None \<and> start_err E = None \<and>
    fst (initialize E started_client ctx) = Returns (Some err) \<longrightarrow>
      fst (newAppServerClient E ctx) = Returns (None, Some err)
      \<and> map_option calls (snd (newAppServerClient E ctx)) =
          Some [StdinClose, StdoutClose, ProcessKill, ProcessWait]
      \<and> map_option Process (snd (newAppServerClient E ctx)) = Some (Some Reaped))
   \<and> (\<forall>cl er. fst (newAppServerClient E ctx) = Returns (cl, er) \<longrightarrow> (cl = None) = (er \<noteq> None))"
proof -
  obtain r c' where i: "initialize E started_client ctx = (r, c')"
    by (cases "initialize E started_client ctx")
  have p: "Process c' = Some Running" and k: "calls c' = []"
    using initialize_frame [of E started_client ctx] i by (simp_all add: started_client_def)
  note cl = Close_returns [OF p]
  obtain r2 c2 where c2: "Close c' = (r2, c2)" by (cases "Close c'")
  have r2: "r2 = Returns ()" and k2: "calls c2 = [StdinClose, StdoutClose, ProcessKill, ProcessWait]"
    and p2: "Process c2 = Some Reaped"
    using cl(1,2,3) c2 k by simp_all
  have a: "stdinPipe_err E = None \<and> stdoutPipe_err E = None \<and> start_err E = None \<and>
    fst (initialize E started_client ctx) = Returns (Some err) \<longrightarrow>
      fst (newAppServerClient E ctx) = Returns (None, Some err)
      \<and> map_option calls (snd (newAppServerClient E ctx)) =
          Some [StdinClose, StdoutClose, ProcessKill, ProcessWait]
      \<and> map_option Process (snd (newAppServerClient E ctx)) = Some (Some Reaped)"
    using i c2 r2 k2 p2
    by (simp add: newAppServerClient_def started_client_def [symmetric])
  have b: "\<forall>cl er. fst (newAppServerClient E ctx) = Returns (cl, er) \<longrightarrow> (cl = None) = (er \<noteq> None)"
    using i c2 r2
    by (auto simp: newAppServerClient_def started_client_def [symmetric] split: option.splits outcome.splits)
  show ?thesis using a b by blast
qed

text \<open>The deadline of the handshake passes without a response.\<close>

theorem constructor_failed_handshake_witness:
  "fst (initialize (waiting_env [CtxDone DeadlineExceeded]) started_client Background)
     = Returns (Some DeadlineExceeded)
   \<and> fst (newAppServerClient (waiting_env [CtxDone DeadlineExceeded]) Background)
     = Returns (None, Some DeadlineExceeded)
   \<and> map_option calls (snd (newAppServerClient (waiting_env [CtxDone DeadlineExceeded]) Background))
     = Some [StdinClose, StdoutClose, ProcessKill, ProcessWait]"
proof -
  let ?E = "waiting_env [CtxDone DeadlineExceeded]"
  have pipes: "stdinPipe_err ?E = None \<and> stdoutPipe_err ?E = None \<and> start_err ?E = None"
    by (simp add: waiting_env_def sample_env_def)
  have fails: "fst (initialize ?E started_client Background) = Returns (Some DeadlineExceeded)"
    by code_simp
  show ?thesis
    using constructor_failed_handshake [of ?E Background DeadlineExceeded] pipes fails by simp
qed

text \<open>
  Claim C7. When the pipes and the child were created, the writes made during construction
  are: first the line of the request \<^verbatim>\<open>initialize\<close> with identifier 1 and the
  \<^verbatim>\<open>clientInfo\<close> payload of a name and a version; then, only when that write succeeded and
  the wait under the 3-second timeout returned success, the line of the notification
  \<^verbatim>\<open>initialized\<close> with nil parameters; and nothing else.
\<close>

theorem handshake_messages:
  assumes pipes: "stdinPipe_err E = None" "stdoutPipe_err E = None" "start_err E = None"
    and req: "marshal E (GoMap [(''id'', GoInt 1), (''method'', GoString ''initialize''),
        (''params'', GoMap [(''clientInfo'', GoMap [(''name'', GoString ''ccstats''), (''version'', GoString ''0.0.0'')])])]) = Some req"
    and nt: "marshal E (GoMap [(''method'', GoString ''initialized''), (''params'', GoNil)]) = Some note"
  shows "map_option (\<lambda>c. map fst (written c)) (snd (newAppServerClient E ctx)) =
     Some (if write_err E 0 = None \<and>
              awaitResponse (parse E) 1 (None :: (jvalue \<Rightarrow> unit option) option)
                (selected E (WithTimeout ctx 3000000000)) = Returns (Inr None)
           then [req @ [CHR 0x0A], note @ [CHR 0x0A]] else [req @ [CHR 0x0A]])"
proof -
  have t: "appServerInitTimeout = 3000000000" by (simp add: appServerInitTimeout_def Second_def)
  from newAppServerClient_built [OF pipes, of ctx] obtain c where
    c: "snd (newAppServerClient E ctx) = Some c"
       "written c = written (snd (initialize E started_client ctx))" by blast
  show ?thesis using c initialize_started [OF req nt, of ctx] by (simp add: t)
qed

text \<open>The child answers the request: both lines are written.\<close>

theorem handshake_messages_witness:
  "map_option (\<lambda>c. map fst (written c))
     (snd (newAppServerClient (waiting_env [Recv (response ''1'' ''{}'')]) Background)) =
     Some [''{'' @ quote ''id'' @ '':1,'' @ quote ''method'' @ '':'' @ quote ''initialize'' @ '','' @
             quote ''params'' @ '':{'' @ quote ''clientInfo'' @ '':{'' @ quote ''name'' @ '':'' @
             quote ''ccstats'' @ '','' @ quote ''version'' @ '':'' @ quote ''0.0.0'' @ ''}}}'' @ [CHR 0x0A],
           ''{'' @ quote ''method'' @ '':'' @ quote ''initialized'' @ '','' @ quote ''params'' @
             '':null}'' @ [CHR 0x0A]]"
proof -
  let ?E = "waiting_env [Recv (response ''1'' ''{}'')]"
  have pipes: "stdinPipe_err ?E = None" "stdoutPipe_err ?E = None" "start_err ?E = None"
    by (simp_all add: waiting_env_def sample_env_def)
  have w: "write_err ?E 0 = None" by (simp add: waiting_env_def sample_env_def)
  have a: "awaitResponse (parse ?E) 1 (None :: (jvalue \<Rightarrow> unit option) option)
      (selected ?E (WithTimeout Background 3000000000)) = Returns (Inr None)"
    unfolding sample_sent by code_simp
  have e1: "encode (GoMap [(''id'', GoInt 1), (''method'', GoString ''initialize''),
        (''params'', GoMap [(''clientInfo'', GoMap [(''name'', GoString ''ccstats''), (''version'', GoString ''0.0.0'')])])])
      = ''{'' @ quote ''id'' @ '':1,'' @ quote ''method'' @ '':'' @ quote ''initialize'' @ '','' @
             quote ''params'' @ '':{'' @ quote ''clientInfo'' @ '':{'' @ quote ''name'' @ '':'' @
             quote ''ccstats'' @ '','' @ quote ''version'' @ '':'' @ quote ''0.0.0'' @ ''}}}''"
    by code_simp
  have e2: "encode (GoMap [(''method'', GoString ''initialized''), (''params'', GoNil)])
      = ''{'' @ quote ''method'' @ '':'' @ quote ''initialized'' @ '','' @ quote ''params'' @ '':null}''"
    by code_simp
  show ?thesis
    using handshake_messages [OF pipes sample_sent(1) sample_sent(1), of Background] w a
    by (simp only: e1 e2 if_True simp_thms append_assoc)
qed

subsection \<open>Concurrent writers\<close>

lemma serial_invI:
  assumes "length ts = length cs"
    and "out = concat (map (\<lambda>k. line_of (cs ! k)) ks) @ p"
    and "distinct ks"
    and "set ks = {i. i < length cs \<and> ts ! i = []}"
    and "if l then \<exists>h. holds cs ts p h else p = [] \<and> (\<forall>j < length cs. idle_or_done cs ts j)"
  shows "serial_inv cs (ts, l, out)"
  unfolding serial_inv_def prod.case using assms by blast

lemma serial_invD:
  assumes "serial_inv cs (ts, l, out)"
  shows "length ts = length cs"
    and "\<exists>ks p. out = concat (map (\<lambda>k. line_of (cs ! k)) ks) @ p \<and> distinct ks \<and>
           set ks = {i. i < length cs \<and> ts ! i = []} \<and>
           (if l then \<exists>h. holds cs ts p h
            else p = [] \<and> (\<forall>j < length cs. idle_or_done cs ts j))"
  using assms unfolding serial_inv_def prod.case by blast+

lemma critical_section_eq: "critical_section c = [Lock, Write (line_of c), Unlock]"
  by (cases c) simp_all

lemma serial_inv_init: "serial_inv cs (map critical_section cs, False, [])"
proof -
  have "\<forall>j < length cs. idle_or_done cs (map critical_section cs) j"
    by (simp add: idle_or_done_def)
  moreover have "{i. i < length cs \<and> map critical_section cs ! i = []} = {}"
    by (auto simp: critical_section_eq)
  ultimately show ?thesis
    by (intro serial_invI [where ks = "[]" and p = "[]"]) simp_all
qed


lemma holder_only:
  assumes i0: "serial_inv cs (ts, l, out)" and i: "i < length ts" and t: "ts ! i = x # r" and x: "x \<noteq> Lock"
  obtains ks p where "out = concat (map (\<lambda>k. line_of (cs ! k)) ks) @ p" "distinct ks"
      "set ks = {i. i < length cs \<and> ts ! i = []}" "l" "holds cs ts p i"
proof -
  note len = serial_invD(1) [OF i0]
  from serial_invD(2) [OF i0] obtain ks p where ks: "out = concat (map (\<lambda>k. line_of (cs ! k)) ks) @ p" "distinct ks"
      "set ks = {i. i < length cs \<and> ts ! i = []}"
      and rest: "if l then \<exists>h. holds cs ts p h else p = [] \<and> (\<forall>j < length cs. idle_or_done cs ts j)"
    by blast
  have l: "l"
  proof (rule ccontr)
    assume "\<not> l"
    with rest have "idle_or_done cs ts i" using i len by simp
    then show False using t x by (simp add: idle_or_done_def critical_section_eq)
  qed
  with rest obtain h where h: "holds cs ts p h" by auto
  have ih: "i = h"
  proof (rule ccontr)
    assume "i \<noteq> h"
    with h i len have "idle_or_done cs ts i" by (simp add: holds_def)
    then show False using t x by (simp add: idle_or_done_def critical_section_eq)
  qed
  show thesis using that [OF ks l] h ih by simp
qed

lemma inv_lock:
  assumes i0: "serial_inv cs (ts, False, out)" and i: "i < length ts" and t: "ts ! i = Lock # r"
  shows "serial_inv cs (ts[i := r], True, out)"
proof -
  note len = serial_invD(1) [OF i0]
  from serial_invD(2) [OF i0] obtain ks where ks: "out = concat (map (\<lambda>k. line_of (cs ! k)) ks)" "distinct ks"
      "set ks = {i. i < length cs \<and> ts ! i = []}"
      and idle: "\<forall>j < length cs. idle_or_done cs ts j"
    by auto
  from idle i t len have r: "r = [Write (line_of (cs ! i)), Unlock]"
    by (auto simp: idle_or_done_def critical_section_eq)
  have h: "holds cs (ts[i := r]) [] i"
    using i t len idle r by (auto simp: holds_def idle_or_done_def)
  have s: "{j. j < length cs \<and> ts[i := r] ! j = []} = {j. j < length cs \<and> ts ! j = []}"
    using i t len r by (auto simp: nth_list_update)
  show ?thesis
    by (rule serial_invI [where ks = ks and p = "[]"]) (use len ks h s in auto)
qed

lemma inv_write_byte:
  assumes i0: "serial_inv cs (ts, l, out)" and i: "i < length ts" and t: "ts ! i = Write (b # bs) # r"
  shows "serial_inv cs (ts[i := Write bs # r], l, out @ [b])"
proof -
  note len = serial_invD(1) [OF i0]
  from holder_only [OF i0 i t] obtain ks p where ks: "out = concat (map (\<lambda>k. line_of (cs ! k)) ks) @ p"
      "distinct ks" "set ks = {i. i < length cs \<and> ts ! i = []}" and l: "l" and h: "holds cs ts p i"
    by auto
  from h t have r: "r = [Unlock]" and p: "p @ b # bs = line_of (cs ! i)"
    by (auto simp: holds_def)
  have h': "holds cs (ts[i := Write bs # r]) (p @ [b]) i"
    using h i t len r p by (auto simp: holds_def idle_or_done_def)
  have s: "{j. j < length cs \<and> ts[i := Write bs # r] ! j = []} = {j. j < length cs \<and> ts ! j = []}"
    using i t len by (auto simp: nth_list_update)
  show ?thesis
    by (rule serial_invI [where ks = ks and p = "p @ [b]"]) (use len ks l h' s in auto)
qed

lemma inv_write_done:
  assumes i0: "serial_inv cs (ts, l, out)" and i: "i < length ts" and t: "ts ! i = Write [] # r"
  shows "serial_inv cs (ts[i := r], l, out)"
proof -
  note len = serial_invD(1) [OF i0]
  from holder_only [OF i0 i t] obtain ks p where ks: "out = concat (map (\<lambda>k. line_of (cs ! k)) ks) @ p"
      "distinct ks" "set ks = {i. i < length cs \<and> ts ! i = []}" and l: "l" and h: "holds cs ts p i"
    by auto
  from h t have r: "r = [Unlock]" and p: "p = line_of (cs ! i)"
    by (auto simp: holds_def)
  have h': "holds cs (ts[i := r]) p i"
    using h i t len r p by (auto simp: holds_def idle_or_done_def)
  have s: "{j. j < length cs \<and> ts[i := r] ! j = []} = {j. j < length cs \<and> ts ! j = []}"
    using i t len r by (auto simp: nth_list_update)
  show ?thesis
    by (rule serial_invI [where ks = ks and p = p]) (use len ks l h' s in auto)
qed

lemma inv_unlock:
  assumes i0: "serial_inv cs (ts, l, out)" and i: "i < length ts" and t: "ts ! i = Unlock # r"
  shows "serial_inv cs (ts[i := r], False, out)"
proof -
  note len = serial_invD(1) [OF i0]
  from holder_only [OF i0 i t] obtain ks p where ks: "out = concat (map (\<lambda>k. line_of (cs ! k)) ks) @ p"
      "distinct ks" "set ks = {i. i < length cs \<and> ts ! i = []}" and l: "l" and h: "holds cs ts p i"
    by auto
  from h t have r: "r = []" and p: "p = line_of (cs ! i)"
    by (auto simp: holds_def)
  have idle: "\<forall>j < length cs. idle_or_done cs (ts[i := r]) j"
    using h i t len r by (auto simp: holds_def idle_or_done_def nth_list_update)
  have notin: "i \<notin> set ks" using ks(3) t by simp
  have s: "{j. j < length cs \<and> ts[i := r] ! j = []} = set (ks @ [i])"
    using i t len r ks(3) by (auto simp: nth_list_update)
  have o: "out = concat (map (\<lambda>k. line_of (cs ! k)) (ks @ [i])) @ []"
    using ks(1) p by simp
  show ?thesis
    by (rule serial_invI [where ks = "ks @ [i]" and p = "[]"]) (use len ks(2) notin idle s o in auto)
qed

lemma serial_inv_serialized:
  assumes i: "serial_inv cs (ts, l, out)"
  shows "serialized cs out"
proof -
  note len = serial_invD(1) [OF i]
  from serial_invD(2) [OF i] obtain ks p where ks: "out = concat (map (\<lambda>k. line_of (cs ! k)) ks) @ p" "distinct ks"
      "set ks = {i. i < length cs \<and> ts ! i = []}"
      and rest: "if l then \<exists>h. holds cs ts p h else p = [] \<and> (\<forall>j < length cs. idle_or_done cs ts j)"
    by blast
  have sub: "set ks \<subseteq> {..<length cs}" using ks(3) by auto
  have "p = [] \<or> (\<exists>h r. h < length cs \<and> h \<notin> set ks \<and> p @ r = line_of (cs ! h))"
  proof (cases l)
    case False
    with rest show ?thesis by simp
  next
    case True
    with rest obtain h where h: "holds cs ts p h" by auto
    then have hl: "h < length cs" and ne: "ts ! h \<noteq> []" and pr: "\<exists>r. p @ r = line_of (cs ! h)"
      by (auto simp: holds_def)
    from ne ks(3) have "h \<notin> set ks" by simp
    with hl pr show ?thesis by blast
  qed
  with ks(1,2) sub show ?thesis unfolding serialized_def by blast
qed

lemma stream_inv_step:
  assumes "step cfg cfg'" and "stream_inv cs cfg"
  shows "stream_inv cs cfg'"
  using assms
proof (cases rule: step.cases)
  case (lock i ts r broken out)
  then show ?thesis using assms(2) inv_lock [of cs ts out i r] by (auto simp: stream_inv_def)
next
  case (write_byte i ts b bs r l out)
  then show ?thesis using assms(2) inv_write_byte [of cs ts l out i b bs r] by (auto simp: stream_inv_def)
next
  case (write_done i ts r l broken out)
  then show ?thesis using assms(2) inv_write_done [of cs ts l out i r] by (auto simp: stream_inv_def)
next
  case (write_fail i ts bs r l broken out)
  then show ?thesis using assms(2) serial_inv_serialized [of cs ts l out]
    by (cases broken) (simp_all add: stream_inv_def)
next
  case (unlock i ts r l broken out)
  then show ?thesis using assms(2) inv_unlock [of cs ts l out i r] by (auto simp: stream_inv_def)
qed

lemma stream_inv_reachable:
  "step\<^sup>*\<^sup>* (map critical_section cs, False, False, []) cfg \<Longrightarrow> stream_inv cs cfg"
proof (induction rule: rtranclp_induct)
  case base
  show ?case using serial_inv_init [of cs] by (simp add: stream_inv_def)
next
  case (step y z)
  then show ?case by (blast intro: stream_inv_step)
qed

text \<open>
  Claim C9. Every call of \<^verbatim>\<open>sendRequest\<close> and \<^verbatim>\<open>sendNotification\<close> writes under the one
  mutex, and what it writes is its whole serialized message followed by a newline. So,
  however the goroutines of any number of concurrent calls are interleaved, the stream
  never holds a partial line with something else after it: it is a sequence of complete
  lines, followed at most by the part of one line that is being written.
\<close>

theorem writes_never_interleave:
  assumes "step\<^sup>*\<^sup>* (map critical_section cs, False, False, []) (ts, l, broken, out)"
  shows "serialized cs out"
proof -
  have "stream_inv cs (ts, l, broken, out)" using assms by (rule stream_inv_reachable)
  then show ?thesis
    using serial_inv_serialized [of cs ts l out] by (auto simp: stream_inv_def split: if_splits)
qed

text \<open>A request and a notification; the notification locks first and has written one byte.\<close>

theorem writes_never_interleave_witness:
  "step\<^sup>*\<^sup>* (map critical_section [RequestCall ''a'', NotificationCall ''b''], False, False, [])
       ([critical_section (RequestCall ''a''), [Write [CHR 0x0A], Unlock]], True, False, ''b'')
   \<and> serialized [RequestCall ''a'', NotificationCall ''b''] ''b''"
proof -
  let ?c0 = "(map critical_section [RequestCall ''a'', NotificationCall ''b''], False, False, [])"
  let ?c1 = "([critical_section (RequestCall ''a''), [Write (''b'' @ [CHR 0x0A]), Unlock]], True, False, [])"
  let ?c2 = "([critical_section (RequestCall ''a''), [Write [CHR 0x0A], Unlock]], True, False, ''b'')"
  have s1: "step ?c0 ?c1"
    using step.lock [of 1 "map critical_section [RequestCall ''a'', NotificationCall ''b'']"
        "[Write (''b'' @ [CHR 0x0A]), Unlock]" False "[]"]
    by simp
  have s2: "step ?c1 ?c2"
    using step.write_byte [of 1 "[critical_section (RequestCall ''a''), [Write (''b'' @ [CHR 0x0A]), Unlock]]"
        "CHR ''b''" "[CHR 0x0A]" "[Unlock]" True "[]"]
    by simp
  have r: "step\<^sup>*\<^sup>* ?c0 ?c2" using s1 s2 by (meson rtranclp.rtrancl_into_rtrancl rtranclp.rtrancl_refl)
  show ?thesis using r writes_never_interleave [OF r] by simp
qed

end
